theory Spec2Isabelle
  imports Complex_Main "HOL-Library.Multiset"
begin

section \<open>Hunger Games Simulator: message templates, event selection and the game state machine\<close>

text \<open>
  A shallow embedding of the simulator's core: \<^verbatim>\<open>utils.ts\<close> (digits, \<^verbatim>\<open>randomInt\<close>,
  \<^verbatim>\<open>shuffle\<close>), \<^verbatim>\<open>events.ts\<close> (\<^verbatim>\<open>CalculateTributesInvolved\<close>, the \<^verbatim>\<open>Event\<close>
  constructor), \<^verbatim>\<open>eventMessage.ts\<close> (\<^verbatim>\<open>ComposeEventMessage\<close>) and \<^verbatim>\<open>game.ts\<close> (the
  \<^verbatim>\<open>Game\<close> class).

  Conventions of the embedding.
  \<^item> A JavaScript string is a \<^typ>\<open>string\<close>; the templates of interest are ASCII.
  \<^item> A \<^verbatim>\<open>throw\<close> is a value of type \<open>error\<close>; a function that throws after it has
    mutated the game returns the error together with the mutated game, because the
    mutations survive the exception.
  \<^item> Tribute objects are shared between \<^verbatim>\<open>tributes\<close>, \<^verbatim>\<open>tributes_alive\<close>, the rounds
    and the snapshots. The list \<open>tributes\<close> of the game is the store of these objects;
    every other reference to a tribute is its position in that list.
  \<^item> A reference to a round (\<^verbatim>\<open>died_in_round\<close>) is the round's \<^verbatim>\<open>index\<close>.
  \<^item> \<^verbatim>\<open>Math.random()\<close> reads a random source \<open>rnd\<close>, a sequence of numbers in
    \<open>[0, 1)\<close>; the game counts the calls made so far. Numbers are exact rationals,
    not IEEE doubles.
\<close>

subsection \<open>utils.ts\<close>

datatype error =
    IndexOutOfBounds nat        \<comment> \<open>\<^verbatim>\<open>check_bounds\<close> of the message composer\<close>
  | TypeError                   \<comment> \<open>a property read or method call on \<^verbatim>\<open>undefined\<close>\<close>
  | EmptyMessage                \<comment> \<open>Event constructor\<close>
  | IllFormedEvent nat          \<comment> \<open>Event constructor: players involved not in 1..9\<close>
  | InvalidDeaths
  | InvalidKillers
  | InvalidRequirement nat
  | InvalidGameStage
  | InternalError               \<comment> \<open>\<^verbatim>\<open>Game.state\<close> was unrecognised\<close>

definition charCodeAt0 :: "char \<Rightarrow> nat" where
  "charCodeAt0 c = of_char c"

definition char_zero :: nat where
  "char_zero = charCodeAt0 (CHR ''0'')"

definition char_nine :: nat where
  "char_nine = charCodeAt0 (CHR ''9'')"

definition isdigit :: "char \<Rightarrow> bool" where
  "isdigit char = (let c = charCodeAt0 char in c \<ge> char_zero \<and> c \<le> char_nine)"

text \<open>\<^verbatim>\<open>xs[i]\<close>: \<open>None\<close> is JavaScript's \<^verbatim>\<open>undefined\<close>.\<close>

definition elem_at :: "'a list \<Rightarrow> nat \<Rightarrow> 'a option" where
  "elem_at xs i = (if i < length xs then Some (xs ! i) else None)"

text \<open>\<^verbatim>\<open>m.slice(a, b)\<close> for \<open>0 \<le> a\<close>, \<open>0 \<le> b\<close>.\<close>

definition slice :: "'a list \<Rightarrow> nat \<Rightarrow> nat \<Rightarrow> 'a list" where
  "slice m a b = take (b - a) (drop a m)"

definition clamp :: "rat \<Rightarrow> rat \<Rightarrow> rat \<Rightarrow> rat" where
  "clamp x lo hi = min (max x lo) hi"

text \<open>The values \<^verbatim>\<open>Math.random()\<close> can return.\<close>

typedef rand01 = "{x :: rat. 0 \<le> x \<and> x < 1}"
  by (rule exI[of _ 0]) simp

setup_lifting type_definition_rand01

lift_definition rand01_of :: "rat \<Rightarrow> rand01" is "\<lambda>x. if 0 \<le> x \<and> x < 1 then x else 0"
  by simp

lift_definition rand_val :: "rand01 \<Rightarrow> rat" is "\<lambda>x. x" .

text \<open>A random source that returns the numbers of a list, then 0 for ever.\<close>

definition rnd_of :: "rat list \<Rightarrow> nat \<Rightarrow> rand01" where
  "rnd_of xs i = rand01_of (if i < length xs then xs ! i else 0)"

text \<open>
  \<open>Math_random rnd n\<close> is the \<open>n\<close>-th call of \<^verbatim>\<open>Math.random()\<close>: its value, and the
  number of calls made after it.
\<close>

definition Math_random :: "(nat \<Rightarrow> rand01) \<Rightarrow> nat \<Rightarrow> rat \<times> nat" where
  "Math_random rnd n = (rand_val (rnd n), Suc n)"

definition randomInt :: "(nat \<Rightarrow> rand01) \<Rightarrow> int \<Rightarrow> int \<Rightarrow> nat \<Rightarrow> int \<times> nat" where
  "randomInt rnd lo hi n =
     (let (r, n1) = Math_random rnd n
      in (\<lfloor>r * of_int (hi - lo)\<rfloor> + lo, n1))"

text \<open>The loop of \<^verbatim>\<open>shuffle\<close>, \<^verbatim>\<open>for (let i = array.length - 1; i > 0; i--)\<close>.\<close>

fun shuffle_loop :: "(nat \<Rightarrow> rand01) \<Rightarrow> nat \<Rightarrow> 'a list \<Rightarrow> nat \<Rightarrow> 'a list \<times> nat" where
  "shuffle_loop rnd 0 array n = (array, n)"
| "shuffle_loop rnd (Suc i) array n =
     (let (j, n1) = randomInt rnd 0 (int (Suc i)) n;
          k = array ! Suc i;
          array1 = array[Suc i := array ! nat j];
          array2 = array1[nat j := k]
      in shuffle_loop rnd i array2 n1)"

definition shuffle :: "(nat \<Rightarrow> rand01) \<Rightarrow> 'a list \<Rightarrow> nat \<Rightarrow> 'a list \<times> nat" where
  "shuffle rnd array n =
     (if length array < 2 then (array, n)
      else shuffle_loop rnd (length array - 1) array n)"

subsection \<open>tribute.ts\<close>

datatype NameSpan = NameSpan (span_value: string)

record TributePronouns =
  nominative :: string
  accusative :: string
  genitive :: string
  reflexive :: string

text \<open>A tag is its \<^verbatim>\<open>id\<close>; \<^verbatim>\<open>Tag.equal\<close> compares ids.\<close>

type_synonym Tag = nat

record Tribute =
  raw_name :: string
  pronouns :: "TributePronouns option"
  uses_pronouns :: bool
  image_src :: string
  plural :: bool
  kills :: nat
  died_in_round :: "nat option"
  tags :: "Tag list"

text \<open>
  \<^verbatim>\<open>new Tribute(name, options)\<close>: no kills, no death record; the pronouns are kept only
  for a tribute that uses pronouns.
\<close>

definition Tribute_new ::
  "string \<Rightarrow> bool \<Rightarrow> TributePronouns option \<Rightarrow> bool \<Rightarrow> string \<Rightarrow> Tag list \<Rightarrow> Tribute" where
  "Tribute_new nm uses prons plur img tgs =
     \<lparr> raw_name = nm, pronouns = (if uses then prons else None), uses_pronouns = uses,
       image_src = img, plural = plur, kills = 0, died_in_round = None, tags = tgs \<rparr>"

definition name :: "Tribute \<Rightarrow> NameSpan" where
  "name t = NameSpan (raw_name t)"

definition has :: "Tribute \<Rightarrow> Tag \<Rightarrow> bool" where
  "has t tg = (tg \<in> set (tags t))"

subsection \<open>events.ts\<close>

record TagRequirement =
  tag :: Tag
  player_index :: nat

record Event =
  message :: string
  players_involved :: nat
  fatalities :: "nat list"
  killers :: "nat list"
  enabled :: bool
  event_id :: int
  event_type :: string
  requirements :: "TagRequirement list"

text \<open>
  \<^verbatim>\<open>raw_message.match(/%[NAGRsyih!]?(\d)/g)\<close>: the matches from left to right, each
  search resuming after the previous match; \<open>[]\<close> when \<^verbatim>\<open>match\<close> returns \<^verbatim>\<open>null\<close>.
\<close>

fun regex_matches :: "string \<Rightarrow> string list" where
  "regex_matches (p # l # d # rest) =
     (if p = CHR ''%'' \<and> l \<in> set ''NAGRsyih!'' \<and> isdigit d
        then [p, l, d] # regex_matches rest
      else if p = CHR ''%'' \<and> isdigit l
        then [p, l] # regex_matches (d # rest)
      else regex_matches (l # d # rest))"
| "regex_matches [p, l] = (if p = CHR ''%'' \<and> isdigit l then [[p, l]] else [])"
| "regex_matches [p] = []"
| "regex_matches [] = []"

text \<open>\<^verbatim>\<open>+x.slice(-1)\<close> for a match \<open>x\<close>: its last character, a digit, as a number.\<close>

definition last_digit :: "string \<Rightarrow> nat" where
  "last_digit x = charCodeAt0 (last x) - char_zero"

definition CalculateTributesInvolved :: "string \<Rightarrow> nat" where
  "CalculateTributesInvolved raw_message =
     (let ms = regex_matches raw_message
      in if ms = [] then 0
         else foldl (\<lambda>prev curr. max prev curr) 0 (map last_digit ms) + 1)"

text \<open>\<^verbatim>\<open>Math.max(...xs)\<close>; \<open>None\<close> is \<^verbatim>\<open>-Infinity\<close>, the maximum of no numbers.\<close>

definition Math_max :: "nat list \<Rightarrow> nat option" where
  "Math_max xs = (if xs = [] then None else Some (foldl max 0 xs))"

text \<open>\<^verbatim>\<open>message.trim()\<close>, for the white space of ASCII.\<close>

definition is_space :: "char \<Rightarrow> bool" where
  "is_space c = (c \<in> set [CHR '' '', CHR 0x09, CHR 0x0A, CHR 0x0B, CHR 0x0C, CHR 0x0D])"

definition trim :: "string \<Rightarrow> string" where
  "trim s = rev (dropWhile is_space (rev (dropWhile is_space s)))"

text \<open>
  \<^verbatim>\<open>new Event(message, fatalities, killers, type)\<close>; \<open>last_id\<close> is \<^verbatim>\<open>Event.__last_id\<close>
  before the call.
\<close>

definition Event_new :: "int \<Rightarrow> string \<Rightarrow> nat list \<Rightarrow> nat list \<Rightarrow> string \<Rightarrow> error + Event" where
  "Event_new last_id msg fatal kill type =
     (if length (trim msg) = 0 then Inl EmptyMessage
      else let involved = CalculateTributesInvolved msg in
        if involved < 1 \<or> involved > 9 then Inl (IllFormedEvent involved)
        else if (case Math_max fatal of None \<Rightarrow> False | Some f \<Rightarrow> f \<ge> involved)
          then Inl InvalidDeaths
        else if (case Math_max kill of None \<Rightarrow> False | Some k \<Rightarrow> k \<ge> involved)
          then Inl InvalidKillers
        else Inr \<lparr> message = trim msg, players_involved = involved, fatalities = fatal,
                   killers = kill, enabled = True, event_id = last_id + 1,
                   event_type = type, requirements = [] \<rparr>)"

definition require :: "Event \<Rightarrow> Tag \<Rightarrow> nat \<Rightarrow> error + Event" where
  "require e tg idx =
     (if idx \<ge> players_involved e then Inl (InvalidRequirement idx)
      else if find (\<lambda>r. tag r = tg \<and> player_index r = idx) (requirements e) = None
        then Inr (e\<lparr>requirements := requirements e @ [\<lparr>tag = tg, player_index = idx\<rparr>]\<rparr>)
      else Inr e)"

subsection \<open>eventMessage.ts\<close>

text \<open>
  An element of a \<^verbatim>\<open>FormattedMessage\<close>: a string or a \<^verbatim>\<open>NameSpan\<close>. \<open>Undefined\<close> is what
  the composer pushes for a pronoun of a tribute that uses pronouns and has none.
\<close>

datatype Segment = Str string | Span NameSpan | Undefined

definition check_bounds :: "Event \<Rightarrow> nat \<Rightarrow> error option" where
  "check_bounds event idx =
     (if idx \<ge> players_involved event then Some (IndexOutOfBounds idx) else None)"

text \<open>The possessive suffix of the \<^verbatim>\<open>G\<close> specifier, as the bytes of the source file.\<close>

definition possessive_suffix :: string where
  "possessive_suffix = [CHR 0xC3, CHR 0xA2, CHR 0xE2, CHR 0x82, CHR 0xAC, CHR 0xE2, CHR 0x84, CHR 0xA2] @ ''s''"

definition pronoun_or :: "Tribute \<Rightarrow> (TributePronouns \<Rightarrow> string) \<Rightarrow> string \<Rightarrow> Segment" where
  "pronoun_or tribute sel otherwise =
     (if uses_pronouns tribute
      then (case pronouns tribute of None \<Rightarrow> Undefined | Some p \<Rightarrow> Str (sel p))
      else Str otherwise)"

text \<open>The inner \<^verbatim>\<open>switch (c)\<close>; \<open>None\<close> is its \<^verbatim>\<open>default: continue\<close>.\<close>

definition specifier_text :: "char \<Rightarrow> Tribute \<Rightarrow> Segment option" where
  "specifier_text c tribute =
     (if c = CHR ''N'' then Some (pronoun_or tribute nominative (raw_name tribute))
      else if c = CHR ''A'' then Some (pronoun_or tribute accusative (raw_name tribute))
      else if c = CHR ''G'' then Some (pronoun_or tribute genitive (raw_name tribute @ possessive_suffix))
      else if c = CHR ''R'' then Some (pronoun_or tribute reflexive (raw_name tribute))
      else if c = CHR ''e'' then Some (Str (if plural tribute then [] else ''es''))
      else if c = CHR ''s'' then Some (Str (if plural tribute then [] else ''s''))
      else if c = CHR ''y'' then Some (Str (if plural tribute then ''y'' else ''ies''))
      else if c = CHR ''i'' then Some (Str (if plural tribute then ''are'' else ''is''))
      else if c = CHR ''h'' then Some (Str (if plural tribute then ''have'' else ''has''))
      else if c = CHR ''!'' then Some (Str (if plural tribute then ''aren't'' else ''isn't''))
      else if c = CHR ''w'' then Some (Str (if plural tribute then ''were'' else ''was''))
      else None)"

text \<open>The \<^verbatim>\<open>case\<close> labels of the outer \<^verbatim>\<open>switch (m[i])\<close>.\<close>

definition digit_cases :: "char set" where
  "digit_cases = set ''0123456789''"

definition specifier_cases :: "char set" where
  "specifier_cases = set ''NAGRsyihe!w''"

text \<open>\<^verbatim>\<open>while (i < m.length && m[i] !== '%') i++\<close>\<close>

function scan_literal :: "string \<Rightarrow> nat \<Rightarrow> nat" where
  "scan_literal m i = (if i < length m \<and> m ! i \<noteq> CHR ''%'' then scan_literal m (Suc i) else i)"
  by pat_completeness auto
termination
  by (relation "measure (\<lambda>(m, i). length m - i)") auto

declare scan_literal.simps [simp del]

text \<open>
  The \<^verbatim>\<open>outer: for (;;)\<close> loop of \<^verbatim>\<open>ComposeEventMessage\<close>, entered with the current
  \<^verbatim>\<open>prev\<close>, \<^verbatim>\<open>i\<close> and \<^verbatim>\<open>composed\<close>; it returns the \<^verbatim>\<open>prev\<close> and \<^verbatim>\<open>composed\<close> with
  which the loop is left. \<open>ps\<close> is \<^verbatim>\<open>event.players_involved\<close>, the participants.
  Reading \<^verbatim>\<open>m[i]\<close> at \<^verbatim>\<open>i = m.length\<close> gives \<^verbatim>\<open>undefined\<close>, on which \<^verbatim>\<open>isdigit\<close>
  throws a TypeError.
\<close>

function compose_loop ::
  "Event \<Rightarrow> Tribute list \<Rightarrow> nat \<Rightarrow> nat \<Rightarrow> Segment list \<Rightarrow> error + (nat \<times> Segment list)" where
  "compose_loop event ps prev i composed =
     (let m = message event;
          i1 = scan_literal m i;
          composed1 = composed @ [Str (slice m prev i1)];
          prev1 = i1
      in if i1 \<ge> length m then Inr (prev1, composed1)
         else let i2 = i1 + 1 in
           if i2 \<ge> length m then Inr (prev1, composed1)
           else if m ! i2 \<in> digit_cases then
             (case check_bounds event (charCodeAt0 (m ! i2) - char_zero) of
                Some e \<Rightarrow> Inl e
              | None \<Rightarrow>
                 (case elem_at ps (charCodeAt0 (m ! i2) - char_zero) of
                    None \<Rightarrow> Inl TypeError
                  | Some tribute \<Rightarrow>
                      let composed2 = composed1 @ [Span (name tribute)];
                          i3 = i2 + 1
                      in if i3 \<ge> length m then Inr (prev1, composed2)
                         else compose_loop event ps i3 i3 composed2))
           else if m ! i2 \<in> specifier_cases then
             (let c = m ! i2;
                  i3 = i2 + 1
              in if i3 \<ge> length m then Inl TypeError
                 else if isdigit (m ! i3) then
                   (let index = charCodeAt0 (m ! i3) - char_zero in
                    case check_bounds event index of
                      Some e \<Rightarrow> Inl e
                    | None \<Rightarrow>
                       (case elem_at ps index of
                          None \<Rightarrow> Inl TypeError
                        | Some tribute \<Rightarrow>
                           (case specifier_text c tribute of
                              None \<Rightarrow> compose_loop event ps prev1 i3 composed1
                            | Some text \<Rightarrow>
                                compose_loop event ps (i3 + 1) (i3 + 1) (composed1 @ [text]))))
                 else compose_loop event ps prev1 i3 composed1)
           else compose_loop event ps prev1 i2 composed1)"
  by pat_completeness auto

termination compose_loop
proof -
  have ge: "i \<le> scan_literal m i" for m i
  proof (induction m i rule: scan_literal.induct)
    case (1 m i)
    show ?case
    proof (cases "i < length m \<and> m ! i \<noteq> CHR ''%''")
      case True
      with 1 have "Suc i \<le> scan_literal m (Suc i)" by simp
      with True show ?thesis by (subst scan_literal.simps) auto
    next
      case False
      then show ?thesis by (subst scan_literal.simps) auto
    qed
  qed
  show ?thesis
  proof (relation "measure (\<lambda>(event, ps, prev, i, composed). length (message event) - i)",
      goal_cases)
    case 1
    show ?case by simp
  next
    case (2 event ps prev i composed)
    then show ?case using ge[of i "message event"] by simp
  next
    case (3 event ps prev i composed)
    then show ?case using ge[of i "message event"] by simp
  next
    case (4 event ps prev i composed)
    then show ?case using ge[of i "message event"] by simp
  next
    case (5 event ps prev i composed)
    then show ?case using ge[of i "message event"] by simp
  next
    case (6 event ps prev i composed)
    then show ?case using ge[of i "message event"] by simp
  qed
qed

declare compose_loop.simps [simp del]

text \<open>
  \<^verbatim>\<open>ComposeEventMessage(event)\<close> for a \<^verbatim>\<open>GameEvent\<close> whose \<^verbatim>\<open>event\<close> and
  \<^verbatim>\<open>players_involved\<close> fields are \<open>event\<close> and \<open>ps\<close>.
\<close>

definition ComposeEventMessage :: "Event \<Rightarrow> Tribute list \<Rightarrow> error + Segment list" where
  "ComposeEventMessage event ps =
     (let m = message event in
      case compose_loop event ps 0 0 [] of
        Inl e \<Rightarrow> Inl e
      | Inr (prev, composed) \<Rightarrow>
          Inr (if prev < length m then composed @ [Str (slice m prev (length m))] else composed))"

subsection \<open>types.ts and gameOptions.ts\<close>

datatype GameStage = BLOODBATH | DAY | NIGHT | FEAST

record GameEventList =
  bloodbath :: "Event list"
  day :: "Event list"
  night :: "Event list"
  feast :: "Event list"

text \<open>An \<^verbatim>\<open>EventList\<close>; an absent list is \<open>[]\<close>, since nothing is pushed from either.\<close>

record EventList =
  el_bloodbath :: "Event list"
  el_day :: "Event list"
  el_night :: "Event list"
  el_feast :: "Event list"
  el_all :: "Event list"

text \<open>
  A \<^verbatim>\<open>GameEvent\<close>: the event, the participants (references to tributes) and the message
  composed when it was created.
\<close>

record GameEvent =
  ge_event :: Event
  ge_players_involved :: "nat list"
  ge_message :: "Segment list"

record GameRound =
  game_events :: "GameEvent list"
  died_this_round :: "nat list"
  round_index :: nat
  round_stage :: GameStage

datatype RequiredFatalitiesMode = Disable | Percent | Absolute

record GreyscaleSettings =
  in_events :: bool
  end_of_day_summary :: bool
  end_of_game_summary :: bool

record GameOptions =
  required_fatalities_mode :: RequiredFatalitiesMode
  opt_required_fatalities :: rat
  starting_day :: "rat option"
  opt_greyscale_settings :: GreyscaleSettings

subsection \<open>game.ts\<close>

datatype GameState =
  DEAD | NEW_ROUND | IN_ROUND | THE_FALLEN | END_RESULTS | END_WINNER
  | END_SUMMARY_FATALITIES | END_SUMMARY_STATS | END

datatype RenderState = GAME_OVER | ROUND_EVENTS | ROUND_DEATHS | WINNERS | GAME_DEATHS | STATS

text \<open>
  The title strings: \<^verbatim>\<open>''\<close>, \<^verbatim>\<open>`Day ${n}`\<close>, \<^verbatim>\<open>`Night ${n}`\<close>, \<^verbatim>\<open>TitleCase(stage)\<close>,
  \<^verbatim>\<open>'The Fallen'\<close>, \<^verbatim>\<open>'The Games Have Ended'\<close>, \<^verbatim>\<open>'Deaths'\<close> and \<^verbatim>\<open>'Winners'\<close>.
\<close>

datatype Title =
  NoTitle | DayTitle nat | NightTitle nat | StageTitle GameStage
  | TheFallen | TheGamesHaveEnded | Deaths | Winners

record GameRenderState =
  rs_state :: RenderState
  rs_game_title :: Title
  rs_rounds :: "GameRound list"
  rs_tributes_died :: "nat list"
  rs_tributes_alive :: "nat list"
  rs_greyscale_settings :: GreyscaleSettings

text \<open>
  The fields of a \<^verbatim>\<open>Game\<close>. \<open>tributes\<close> holds the tribute objects; \<open>tributes_alive\<close>,
  \<open>tributes_died\<close> (the private \<^verbatim>\<open>#tributes_died\<close>) and the rounds refer to them by
  position. \<open>random_calls\<close> counts the calls of \<^verbatim>\<open>Math.random()\<close> made so far.
\<close>

record Game =
  tributes :: "Tribute list"
  tributes_alive :: "nat list"
  tributes_died :: "nat list"
  state :: GameState
  game_title :: Title
  last_feast :: nat
  stage :: GameStage
  fatality_reroll_rate :: rat
  all_won :: bool
  rounds :: "GameRound list"
  days_passed :: nat
  nights_passed :: nat
  event_list :: GameEventList
  required_fatalities :: "rat option"
  greyscale_settings :: GreyscaleSettings
  random_calls :: nat

definition AddEvents :: "EventList \<Rightarrow> GameEventList" where
  "AddEvents event_option_list =
     \<lparr> bloodbath = filter enabled (el_all event_option_list) @ filter enabled (el_bloodbath event_option_list),
       day = filter enabled (el_all event_option_list) @ filter enabled (el_day event_option_list),
       night = filter enabled (el_all event_option_list) @ filter enabled (el_night event_option_list),
       feast = filter enabled (el_all event_option_list) @ filter enabled (el_feast event_option_list) \<rparr>"

text \<open>
  \<^verbatim>\<open>new Game(tributes, events, fatality_reroll_rate)\<close>, reading the settings \<open>opts\<close>
  (\<^verbatim>\<open>GameSettings.value\<close>). A rational is finite, so the \<^verbatim>\<open>isFinite\<close> tests pass.
\<close>

definition Game_new :: "GameOptions \<Rightarrow> Tribute list \<Rightarrow> EventList \<Rightarrow> rat \<Rightarrow> Game" where
  "Game_new opts ts events rate =
     \<lparr> tributes = ts,
       tributes_alive = [0..<length ts],
       tributes_died = [],
       state = NEW_ROUND,
       game_title = NoTitle,
       last_feast = 0,
       stage = BLOODBATH,
       fatality_reroll_rate = rate,
       all_won = False,
       rounds = [],
       days_passed = (case starting_day opts of None \<Rightarrow> 0 | Some d \<Rightarrow> nat (max 0 \<lfloor>d - 1\<rfloor>)),
       nights_passed = (case starting_day opts of None \<Rightarrow> 0 | Some d \<Rightarrow> nat (max 0 \<lfloor>d - 1\<rfloor>)),
       event_list = AddEvents events,
       required_fatalities =
         (if required_fatalities_mode opts \<noteq> Disable then
            (if required_fatalities_mode opts = Percent
             then Some (of_int \<lceil>clamp (opt_required_fatalities opts) 0 100 / 100 * of_nat (length ts)\<rceil>)
             else Some (max 0 (opt_required_fatalities opts)))
          else None),
       greyscale_settings = opt_greyscale_settings opts,
       random_calls = 0 \<rparr>"

text \<open>\<^verbatim>\<open>#AdvanceGameStage\<close>: the next stage, and the game with its counters advanced.\<close>

definition AdvanceGameStage :: "(nat \<Rightarrow> rand01) \<Rightarrow> Game \<Rightarrow> GameStage \<times> Game" where
  "AdvanceGameStage rnd g =
     (if length (rounds g) = 0 then (BLOODBATH, g)
      else if stage g = FEAST \<or> stage g = BLOODBATH
        then (DAY, g\<lparr>days_passed := days_passed g + 1\<rparr>)
      else if stage g = NIGHT then
        (let rounds_since_feast = int (length (rounds g)) - int (last_feast g) in
         if rounds_since_feast \<ge> 5 then
           (let (r, n1) = Math_random rnd (random_calls g);
                g1 = g\<lparr>random_calls := n1\<rparr>;
                p = (if rounds_since_feast \<ge> 7 then 50 / 100 * of_int (rounds_since_feast - 4)
                     else if rounds_since_feast \<ge> 6 then 33 / 100 * of_int (rounds_since_feast - 4)
                     else 25 / 100 * of_int (rounds_since_feast - 4))
            in if r > p then (DAY, g1\<lparr>days_passed := days_passed g1 + 1\<rparr>)
               else (FEAST, g1\<lparr>last_feast := length (rounds g1)\<rparr>))
         else (DAY, g\<lparr>days_passed := days_passed g + 1\<rparr>))
      else (NIGHT, g\<lparr>nights_passed := nights_passed g + 1\<rparr>))"

definition CheckGameShouldEnd :: "Game \<Rightarrow> bool \<times> Game" where
  "CheckGameShouldEnd g =
     (if length (tributes_alive g) < 2 \<or> all_won g then (True, g\<lparr>state := END_RESULTS\<rparr>)
      else (False, g))"

text \<open>
  The tag requirements of \<^verbatim>\<open>#RequirementsSatisfied\<close>, in order; the method call on
  \<^verbatim>\<open>this.tributes_alive[current_tribute + player_index]\<close> throws when there is no
  such element.
\<close>

fun tag_requirements_hold :: "Game \<Rightarrow> nat \<Rightarrow> TagRequirement list \<Rightarrow> error + bool" where
  "tag_requirements_hold g current_tribute [] = Inr True"
| "tag_requirements_hold g current_tribute (r # rs) =
     (case elem_at (tributes_alive g) (current_tribute + player_index r) of
        None \<Rightarrow> Inl TypeError
      | Some t \<Rightarrow>
          if \<not> has (tributes g ! t) (tag r) then Inr False
          else tag_requirements_hold g current_tribute rs)"

text \<open>
  \<^verbatim>\<open>#RequirementsSatisfied\<close>. \<^verbatim>\<open>if (this.required_fatalities)\<close> holds for a number other
  than 0; \<^verbatim>\<open>Math.random()\<close> is called only for an event with a fatality.
\<close>

definition RequirementsSatisfied ::
  "(nat \<Rightarrow> rand01) \<Rightarrow> Game \<Rightarrow> Event \<Rightarrow> nat \<Rightarrow> nat \<Rightarrow> nat \<Rightarrow> (error + bool) \<times> Game" where
  "RequirementsSatisfied rnd g event current_tribute tributes_left died =
     (if players_involved event > tributes_left then (Inr False, g)
      else if required_fatalities g \<noteq> None \<and> required_fatalities g \<noteq> Some 0 then
        (if of_nat died < the (required_fatalities g) \<and> length (fatalities event) = 0
           then (Inr False, g)
         else if of_nat died \<ge> the (required_fatalities g) \<and> length (fatalities event) \<noteq> 0
           then (Inr False, g)
         else (tag_requirements_hold g current_tribute (requirements event), g))
      else if length (fatalities event) \<noteq> 0 then
        (let (r, n1) = Math_random rnd (random_calls g);
             g1 = g\<lparr>random_calls := n1\<rparr>
         in if r < fatality_reroll_rate g then (Inr False, g1)
            else (tag_requirements_hold g1 current_tribute (requirements event), g1))
      else (tag_requirements_hold g current_tribute (requirements event), g))"

text \<open>
  The \<^verbatim>\<open>do ... while\<close> loop that chooses an event, entered with the current \<^verbatim>\<open>tries\<close>.
  \<open>Inr None\<close> is \<^verbatim>\<open>break outer\<close>; the second component is \<^verbatim>\<open>tries\<close> when the loop is left.
\<close>

function draw_event ::
  "(nat \<Rightarrow> rand01) \<Rightarrow> Event list \<Rightarrow> nat \<Rightarrow> nat \<Rightarrow> nat \<Rightarrow> nat \<Rightarrow> Game
     \<Rightarrow> (error + Event option) \<times> nat \<times> Game" where
  "draw_event rnd evs current_tribute tributes_left died tries g =
     (if tries > max 100 (length evs * 10) then (Inr None, tries + 1, g)
      else
        let (k, n1) = randomInt rnd 0 (int (length evs)) (random_calls g);
            g1 = g\<lparr>random_calls := n1\<rparr>
        in case (if k < 0 then None else elem_at evs (nat k)) of
             None \<Rightarrow> (Inl TypeError, tries + 1, g1)
           | Some event \<Rightarrow>
              (case RequirementsSatisfied rnd g1 event current_tribute tributes_left died of
                 (Inl e, g2) \<Rightarrow> (Inl e, tries + 1, g2)
               | (Inr True, g2) \<Rightarrow> (Inr (Some event), tries + 1, g2)
               | (Inr False, g2) \<Rightarrow>
                   draw_event rnd evs current_tribute tributes_left died (tries + 1) g2))"
  by pat_completeness auto
termination
  by (relation "measure (\<lambda>(rnd, evs, c, l, d, tries, g). max 100 (length evs * 10) + 1 - tries)") auto

declare draw_event.simps [simp del]

text \<open>
  The body of the selection loop after an event has been chosen. \<open>ridx\<close> is the position
  of the round being played in \<open>rounds\<close>; the round object is updated in place.
\<close>

definition mark_dead :: "nat \<Rightarrow> nat \<Rightarrow> Game \<Rightarrow> Game" where
  "mark_dead ridx t g =
     (let g1 = g\<lparr>tributes := (tributes g)[t := (tributes g ! t)\<lparr>died_in_round := Some ridx\<rparr>]\<rparr>;
          round = rounds g1 ! ridx
      in g1\<lparr>rounds := (rounds g1)[ridx := round\<lparr>died_this_round := died_this_round round @ [t]\<rparr>]\<rparr>)"

text \<open>\<^verbatim>\<open>for (const f of event.fatalities)\<close>, with the counters \<^verbatim>\<open>tributes_alive\<close> and \<^verbatim>\<open>died_this_round\<close>.\<close>

fun handle_fatalities ::
  "nat \<Rightarrow> nat \<Rightarrow> nat list \<Rightarrow> int \<Rightarrow> nat \<Rightarrow> Game \<Rightarrow> (error + int \<times> nat) \<times> Game" where
  "handle_fatalities ridx current_tribute [] alive_count died g = (Inr (alive_count, died), g)"
| "handle_fatalities ridx current_tribute (f # fs) alive_count died g =
     (case elem_at (tributes_alive g) (current_tribute + f) of
        None \<Rightarrow> (Inl TypeError, g)
      | Some t \<Rightarrow>
          handle_fatalities ridx current_tribute fs (alive_count - 1) (died + 1) (mark_dead ridx t g))"

text \<open>\<^verbatim>\<open>for (const k of event.killers)\<close>; \<open>n\<close> is \<^verbatim>\<open>event.fatalities.length\<close>.\<close>

fun credit_killers :: "nat \<Rightarrow> nat \<Rightarrow> nat list \<Rightarrow> Game \<Rightarrow> error option \<times> Game" where
  "credit_killers n current_tribute [] g = (None, g)"
| "credit_killers n current_tribute (k # ks) g =
     (case elem_at (tributes_alive g) (current_tribute + k) of
        None \<Rightarrow> (Some TypeError, g)
      | Some t \<Rightarrow>
          credit_killers n current_tribute ks
            (g\<lparr>tributes := (tributes g)[t := (tributes g ! t)\<lparr>kills := kills (tributes g ! t) + n\<rparr>]\<rparr>))"

text \<open>
  \<^verbatim>\<open>new GameEvent(event, tributes_involved)\<close>: the constructor composes the message and so
  can throw.
\<close>

definition GameEvent_new :: "Tribute list \<Rightarrow> Event \<Rightarrow> nat list \<Rightarrow> error + GameEvent" where
  "GameEvent_new store event involved =
     (case ComposeEventMessage event (map (\<lambda>t. store ! t) involved) of
        Inl e \<Rightarrow> Inl e
      | Inr msg \<Rightarrow> Inr \<lparr> ge_event = event, ge_players_involved = involved, ge_message = msg \<rparr>)"

text \<open>
  One accepted event: fatalities, kill credits, the participants
  \<^verbatim>\<open>tributes_alive[current_tribute .. last - 1]\<close> (in range, since the event was accepted with
  \<^verbatim>\<open>players_involved <= tributes_left\<close>), and the registration of the event in the round.
\<close>

definition accept_event ::
  "nat \<Rightarrow> Event \<Rightarrow> nat \<Rightarrow> int \<Rightarrow> nat \<Rightarrow> Game \<Rightarrow> (error + int \<times> nat) \<times> Game" where
  "accept_event ridx event current_tribute alive_count died g =
     (case handle_fatalities ridx current_tribute (fatalities event) alive_count died g of
        (Inl e, g1) \<Rightarrow> (Inl e, g1)
      | (Inr counters, g1) \<Rightarrow>
         (case credit_killers (length (fatalities event)) current_tribute (killers event) g1 of
            (Some e, g2) \<Rightarrow> (Inl e, g2)
          | (None, g2) \<Rightarrow>
              let last = current_tribute + players_involved event;
                  tributes_involved = map (\<lambda>k. tributes_alive g2 ! k) [current_tribute..<last]
              in case GameEvent_new (tributes g2) event tributes_involved of
                   Inl e \<Rightarrow> (Inl e, g2)
                 | Inr ge \<Rightarrow>
                     let round = rounds g2 ! ridx
                     in (Inr counters,
                         g2\<lparr>rounds := (rounds g2)[ridx := round\<lparr>game_events := game_events round @ [ge]\<rparr>]\<rparr>)))"

text \<open>
  The loop \<^verbatim>\<open>outer: while (tributes_left)\<close> of \<^verbatim>\<open>#DoRoundImpl\<close>, entered with the current
  values of its variables. The result is the error thrown, if any, and the game; the
  function has no value where the loop does not end.
\<close>

partial_function (option) select_loop ::
  "(nat \<Rightarrow> rand01) \<Rightarrow> Event list \<Rightarrow> nat \<Rightarrow> nat \<Rightarrow> int \<Rightarrow> nat \<Rightarrow> nat \<Rightarrow> Game
     \<Rightarrow> (error option \<times> Game) option" where
  "select_loop rnd evs ridx tributes_left alive_count current_tribute died g =
     (if tributes_left = 0 then Some (None, g)
      else
        case draw_event rnd evs current_tribute tributes_left died 0 g of
          (Inl e, tries, g1) \<Rightarrow> Some (Some e, g1)
        | (Inr None, tries, g1) \<Rightarrow> Some (None, g1)
        | (Inr (Some event), tries, g1) \<Rightarrow>
           (case accept_event ridx event current_tribute alive_count died g1 of
              (Inl e, g2) \<Rightarrow> Some (Some e, g2)
            | (Inr (alive_count1, died1), g2) \<Rightarrow>
                if alive_count1 < 2 then Some (None, g2)
                else select_loop rnd evs ridx (tributes_left - players_involved event) alive_count1
                       (current_tribute + players_involved event) died1 g2))"

declare select_loop.simps [code]

text \<open>The end of \<^verbatim>\<open>#DoRoundImpl\<close>, after the selection loop.\<close>

definition finish_round :: "(nat \<Rightarrow> rand01) \<Rightarrow> nat \<Rightarrow> Game \<Rightarrow> Game" where
  "finish_round rnd ridx g =
     (let round = rounds g ! ridx;
          (shuffled, n1) = shuffle rnd (game_events round) (random_calls g);
          g1 = g\<lparr>rounds := (rounds g)[ridx := round\<lparr>game_events := shuffled\<rparr>], random_calls := n1\<rparr>;
          g2 = g1\<lparr>tributes_alive := filter (\<lambda>t. died_in_round (tributes g1 ! t) = None) (tributes_alive g1)\<rparr>
      in g2\<lparr>tributes_died := tributes_died g2 @ died_this_round (rounds g2 ! ridx)\<rparr>)"

definition stage_event_list :: "Game \<Rightarrow> Event list" where
  "stage_event_list g =
     (case stage g of
        BLOODBATH \<Rightarrow> bloodbath (event_list g)
      | DAY \<Rightarrow> day (event_list g)
      | NIGHT \<Rightarrow> night (event_list g)
      | FEAST \<Rightarrow> feast (event_list g))"

definition round_title :: "Game \<Rightarrow> Title" where
  "round_title g =
     (if stage g = DAY then DayTitle (days_passed g)
      else if stage g = NIGHT then NightTitle (nights_passed g)
      else StageTitle (stage g))"

definition DoRoundImpl :: "(nat \<Rightarrow> rand01) \<Rightarrow> Game \<Rightarrow> (error option \<times> Game) option" where
  "DoRoundImpl rnd g =
     (let tributes_left = length (tributes_alive g);
          alive_count = int tributes_left;
          current_tribute = 0;
          g1 = g\<lparr>game_title := round_title g\<rparr>;
          round = \<lparr> game_events = [], died_this_round = [],
                    round_index = length (rounds g1), round_stage = stage g1 \<rparr>;
          ridx = length (rounds g1);
          g2 = g1\<lparr>rounds := rounds g1 @ [round]\<rparr>;
          (shuffled, n1) = shuffle rnd (tributes_alive g2) (random_calls g2);
          g3 = g2\<lparr>tributes_alive := shuffled, random_calls := n1\<rparr>;
          evs = stage_event_list g3
      in if length evs = 0 then Some (None, g3)
         else
           case select_loop rnd evs ridx tributes_left alive_count current_tribute 0 g3 of
             None \<Rightarrow> None
           | Some (Some e, g4) \<Rightarrow> Some (Some e, g4)
           | Some (None, g4) \<Rightarrow> Some (None, finish_round rnd ridx g4))"

definition DoRound :: "(nat \<Rightarrow> rand01) \<Rightarrow> Game \<Rightarrow> (error option \<times> Game) option" where
  "DoRound rnd g =
     (let (next_stage, g1) = AdvanceGameStage rnd g;
          g2 = g1\<lparr>stage := next_stage\<rparr>
      in case DoRoundImpl rnd g2 of
           None \<Rightarrow> None
         | Some (Some e, g3) \<Rightarrow> Some (Some e, g3)
         | Some (None, g3) \<Rightarrow>
             let (ended, g4) = CheckGameShouldEnd g3
             in Some (None, if \<not> ended \<and> stage g4 = NIGHT then g4\<lparr>state := THE_FALLEN\<rparr> else g4))"

definition StartNewRound :: "Game \<Rightarrow> Game" where
  "StartNewRound g = g\<lparr>tributes_died := []\<rparr>"

definition TickRenderState :: "Game \<Rightarrow> RenderState" where
  "TickRenderState g =
     (case state g of
        NEW_ROUND \<Rightarrow> ROUND_EVENTS
      | IN_ROUND \<Rightarrow> ROUND_EVENTS
      | THE_FALLEN \<Rightarrow> ROUND_DEATHS
      | END_RESULTS \<Rightarrow> ROUND_DEATHS
      | END_WINNER \<Rightarrow> WINNERS
      | END_SUMMARY_FATALITIES \<Rightarrow> GAME_DEATHS
      | END_SUMMARY_STATS \<Rightarrow> STATS
      | DEAD \<Rightarrow> GAME_OVER
      | END \<Rightarrow> GAME_OVER)"

text \<open>\<^verbatim>\<open>this.tributes.filter(t => t.died_in_round !== undefined)\<close>, as references.\<close>

definition tributes_with_death_record :: "Game \<Rightarrow> nat list" where
  "tributes_with_death_record g =
     filter (\<lambda>t. died_in_round (tributes g ! t) \<noteq> None) [0..<length (tributes g)]"

text \<open>The \<^verbatim>\<open>GameRenderState\<close> that \<^verbatim>\<open>#AdvanceGame\<close> returns, for the render state computed on entry.\<close>

definition render :: "RenderState \<Rightarrow> Game \<Rightarrow> GameRenderState" where
  "render rstate g =
     \<lparr> rs_state = rstate,
       rs_game_title = game_title g,
       rs_rounds = rounds g,
       rs_tributes_died = (if state g = END then tributes_with_death_record g else tributes_died g),
       rs_tributes_alive = tributes_alive g,
       rs_greyscale_settings = greyscale_settings g \<rparr>"

text \<open>
  \<^verbatim>\<open>AdvanceGame()\<close>: the private \<^verbatim>\<open>#AdvanceGame\<close> inside \<^verbatim>\<open>Game.#Try\<close>, which returns a
  thrown error as a value. The result is the error or the snapshot, and the game after
  the call.
\<close>

definition AdvanceGame ::
  "(nat \<Rightarrow> rand01) \<Rightarrow> Game \<Rightarrow> ((error + GameRenderState) \<times> Game) option" where
  "AdvanceGame rnd g =
     (let rstate = TickRenderState g in
      case state g of
        NEW_ROUND \<Rightarrow>
          (case DoRound rnd (StartNewRound (g\<lparr>state := IN_ROUND\<rparr>)) of
             None \<Rightarrow> None
           | Some (Some e, g1) \<Rightarrow> Some (Inl e, g1)
           | Some (None, g1) \<Rightarrow> Some (Inr (render rstate g1), g1))
      | IN_ROUND \<Rightarrow>
          (case DoRound rnd g of
             None \<Rightarrow> None
           | Some (Some e, g1) \<Rightarrow> Some (Inl e, g1)
           | Some (None, g1) \<Rightarrow> Some (Inr (render rstate g1), g1))
      | THE_FALLEN \<Rightarrow>
          (let g1 = g\<lparr>game_title := TheFallen, state := NEW_ROUND\<rparr>
           in Some (Inr (render rstate g1), g1))
      | END_RESULTS \<Rightarrow>
          (let g1 = g\<lparr>game_title := TheFallen, state := END_WINNER\<rparr>
           in Some (Inr (render rstate g1), g1))
      | END_WINNER \<Rightarrow>
          (let g1 = g\<lparr>game_title := TheGamesHaveEnded, state := END_SUMMARY_FATALITIES\<rparr>
           in Some (Inr (render rstate g1), g1))
      | END_SUMMARY_FATALITIES \<Rightarrow>
          (let g1 = g\<lparr>game_title := Deaths, state := END_SUMMARY_STATS\<rparr>
           in Some (Inr (render rstate g1), g1))
      | END_SUMMARY_STATS \<Rightarrow>
          (let g1 = g\<lparr>game_title := (if length (tributes_alive g) \<noteq> 0 then Winners else TheFallen),
                       state := END\<rparr>
           in Some (Inr (render rstate g1), g1))
      | END \<Rightarrow> Some (Inr (render rstate g), g)
      | DEAD \<Rightarrow> Some (Inl InternalError, g\<lparr>state := DEAD\<rparr>))"

text \<open>\<open>n\<close> calls of \<^verbatim>\<open>AdvanceGame()\<close> in a row: the results in order, and the game after them.\<close>

fun advance_times ::
  "(nat \<Rightarrow> rand01) \<Rightarrow> nat \<Rightarrow> Game \<Rightarrow> ((error + GameRenderState) list \<times> Game) option" where
  "advance_times rnd 0 g = Some ([], g)"
| "advance_times rnd (Suc n) g =
     (case AdvanceGame rnd g of
        None \<Rightarrow> None
      | Some (res, g1) \<Rightarrow>
         (case advance_times rnd n g1 of
            None \<Rightarrow> None
          | Some (results, g2) \<Rightarrow> Some (res # results, g2)))"

subsection \<open>The specification's reading of a template\<close>

text \<open>
  Following the specification's words, not the code: a template references a participant
  slot by \<^verbatim>\<open>%d\<close>, and by \<^verbatim>\<open>%Xd\<close> for a pronoun specifier \<^verbatim>\<open>N A G R\<close> or an agreement
  specifier \<^verbatim>\<open>s y i h e ! w\<close>; \<^verbatim>\<open>players_involved\<close> is one more than the highest slot
  referenced, and 0 when none is.
\<close>

fun spec_referenced_slots :: "string \<Rightarrow> nat list" where
  "spec_referenced_slots (p # l # d # rest) =
     (if p = CHR ''%'' \<and> isdigit l
        then (charCodeAt0 l - char_zero) # spec_referenced_slots (d # rest)
      else if p = CHR ''%'' \<and> l \<in> set ''NAGRsyihe!w'' \<and> isdigit d
        then (charCodeAt0 d - char_zero) # spec_referenced_slots rest
      else spec_referenced_slots (l # d # rest))"
| "spec_referenced_slots [p, l] =
     (if p = CHR ''%'' \<and> isdigit l then [charCodeAt0 l - char_zero] else [])"
| "spec_referenced_slots [p] = []"
| "spec_referenced_slots [] = []"

definition spec_players_involved :: "string \<Rightarrow> nat" where
  "spec_players_involved m =
     (if spec_referenced_slots m = [] then 0 else Max (set (spec_referenced_slots m)) + 1)"

text \<open>The template holds \<^verbatim>\<open>%e\<close> or \<^verbatim>\<open>%w\<close> followed by a digit.\<close>

fun mentions_e_or_w :: "string \<Rightarrow> bool" where
  "mentions_e_or_w (p # l # d # rest) =
     ((p = CHR ''%'' \<and> (l = CHR ''e'' \<or> l = CHR ''w'') \<and> isdigit d) \<or>
      mentions_e_or_w (l # d # rest))"
| "mentions_e_or_w [p, l] = False"
| "mentions_e_or_w [p] = False"
| "mentions_e_or_w [] = False"

subsection \<open>Example tributes and events\<close>

definition tribute_A :: Tribute where
  "tribute_A = Tribute_new ''A'' False None False [] []"

definition tribute_B :: Tribute where
  "tribute_B = Tribute_new ''B'' False None False [] []"

definition tribute_C :: Tribute where
  "tribute_C = Tribute_new ''C'' False None False [] []"

text \<open>
  The event that \<^verbatim>\<open>new Event(m, f, k)\<close> makes when it accepts a template \<open>m\<close> for which
  it computes \<open>n\<close> players.
\<close>

definition builtin_event :: "string \<Rightarrow> nat \<Rightarrow> nat list \<Rightarrow> nat list \<Rightarrow> Event" where
  "builtin_event m n f k =
     \<lparr> message = m, players_involved = n, fatalities = f, killers = k, enabled = True,
       event_id = 0, event_type = ''BUILTIN'', requirements = [] \<rparr>"

subsection \<open>Auxiliary notions for the proofs\<close>

text \<open>
  What the selection loop of a round leaves alone: everything but the tribute objects,
  the events and deaths recorded in the rounds, and the count of random numbers drawn.
\<close>

definition round_frame :: "Game \<Rightarrow> Game \<Rightarrow> bool" where
  "round_frame g g' \<longleftrightarrow>
     tributes_alive g' = tributes_alive g \<and> tributes_died g' = tributes_died g \<and>
     state g' = state g \<and> game_title g' = game_title g \<and> last_feast g' = last_feast g \<and>
     stage g' = stage g \<and> fatality_reroll_rate g' = fatality_reroll_rate g \<and>
     all_won g' = all_won g \<and> days_passed g' = days_passed g \<and>
     nights_passed g' = nights_passed g \<and> event_list g' = event_list g \<and>
     required_fatalities g' = required_fatalities g \<and>
     greyscale_settings g' = greyscale_settings g \<and>
     length (tributes g') = length (tributes g) \<and>
     map round_stage (rounds g') = map round_stage (rounds g)"

text \<open>
  The invariant behind the stages of the first four rounds: the current stage is the
  stage of the last round, no feast has been recorded during the first three rounds, and
  the rounds played so far follow the fixed opening.
\<close>

definition stage_inv :: "Game \<Rightarrow> bool" where
  "stage_inv g \<longleftrightarrow>
     (rounds g = [] \<or> stage g = round_stage (last (rounds g))) \<and>
     (3 < length (rounds g) \<or> last_feast g = 0) \<and>
     take 4 (map round_stage (rounds g)) = take (length (rounds g)) [BLOODBATH, DAY, NIGHT, DAY]"

text \<open>
  The invariant of the alive roster at the boundary of \<^verbatim>\<open>AdvanceGame()\<close>: its members are
  distinct tributes of the game without a death record.
\<close>

definition roster_inv :: "Game \<Rightarrow> bool" where
  "roster_inv g \<longleftrightarrow>
     distinct (tributes_alive g) \<and>
     (\<forall>t \<in> set (tributes_alive g). t < length (tributes g) \<and> died_in_round (tributes g ! t) = None)"

text \<open>
  What the selection loop does to the tributes: the roster stays as it is, and only
  tributes of the roster are touched.
\<close>

definition store_frame :: "Game \<Rightarrow> Game \<Rightarrow> bool" where
  "store_frame g g' \<longleftrightarrow>
     tributes_alive g' = tributes_alive g \<and>
     length (tributes g') = length (tributes g) \<and>
     (\<forall>t. t \<notin> set (tributes_alive g) \<longrightarrow> tributes g' ! t = tributes g ! t)"

subsection \<open>Example games\<close>

definition default_options :: GameOptions where
  "default_options =
     \<lparr> required_fatalities_mode = Disable, opt_required_fatalities = 0, starting_day = None,
       opt_greyscale_settings =
         \<lparr> in_events = False, end_of_day_summary = True, end_of_game_summary = False \<rparr> \<rparr>"

text \<open>
  Three tributes; the bloodbath kills one of them, days are restful or deadly, nights are
  quiet. Fatal events are never rerolled (reroll rate 0).
\<close>

definition quiet_nights :: EventList where
  "quiet_nights =
     \<lparr> el_bloodbath = [builtin_event ''%0 kills %1 while %2 watches'' 3 [1] [0]],
       el_day = [builtin_event ''%0 rests'' 1 [] [], builtin_event ''%0 dies'' 1 [0] []],
       el_night = [builtin_event ''%0 sleeps'' 1 [] []],
       el_feast = [],
       el_all = [] \<rparr>"

definition three_tribute_game :: Game where
  "three_tribute_game = Game_new default_options [tribute_A, tribute_B, tribute_C] quiet_nights 0"

text \<open>What a call of \<^verbatim>\<open>AdvanceGame()\<close> returned: the error, or the snapshot's list of deaths.\<close>

definition outcome :: "error + GameRenderState \<Rightarrow> error option" where
  "outcome res = (case res of Inl e \<Rightarrow> Some e | Inr snapshot \<Rightarrow> None)"

definition reported_deaths :: "error + GameRenderState \<Rightarrow> nat list option" where
  "reported_deaths res =
     (case res of Inl e \<Rightarrow> None | Inr snapshot \<Rightarrow> Some (rs_tributes_died snapshot))"

text \<open>The alive roster, and the death record of every tribute.\<close>

definition roster_view :: "Game \<Rightarrow> nat list \<times> nat option list" where
  "roster_view g = (tributes_alive g, map died_in_round (tributes g))"

text \<open>The call of \<^verbatim>\<open>AdvanceGame()\<close> that follows \<open>n\<close> earlier calls.\<close>

definition next_call ::
  "(nat \<Rightarrow> rand01) \<Rightarrow> nat \<Rightarrow> Game \<Rightarrow> ((error + GameRenderState) \<times> Game) option" where
  "next_call rnd n g =
     (case advance_times rnd n g of None \<Rightarrow> None | Some (results, g1) \<Rightarrow> AdvanceGame rnd g1)"

text \<open>
  Of a call: the deaths its snapshot reports, the state after it, the accumulation buffer
  and the tributes with a death record.
\<close>

definition summary ::
  "(error + GameRenderState) \<times> Game \<Rightarrow> nat list option \<times> GameState \<times> nat list \<times> nat list" where
  "summary r =
     (reported_deaths (fst r), state (snd r), tributes_died (snd r),
      tributes_with_death_record (snd r))"

text \<open>
  A random source for \<open>three_tribute_game\<close>: thirteen zeros, so that the days before the
  first night are restful, then the number that picks the deadly event on the next day.
\<close>

definition late_death_source :: "nat \<Rightarrow> rand01" where
  "late_death_source = rnd_of (replicate 13 0 @ [1 / 2])"

text \<open>
  Two tributes and a bloodbath event whose template the constructor accepts with one
  player although it refers to slot 1 (\<^verbatim>\<open>%e1\<close>); the day event is sound.
\<close>

definition faulty_bloodbath :: EventList where
  "faulty_bloodbath =
     \<lparr> el_bloodbath = [builtin_event ''%0 watch%e1'' 1 [] []],
       el_day = [builtin_event ''%0 rests'' 1 [] []],
       el_night = [], el_feast = [], el_all = [] \<rparr>"

definition faulty_bloodbath_game :: Game where
  "faulty_bloodbath_game =
     Game_new default_options [tribute_A, tribute_B] faulty_bloodbath (6 / 10)"

text \<open>The same slip in an event with a fatality, used in every stage.\<close>

definition fatal_slip :: EventList where
  "fatal_slip =
     \<lparr> el_bloodbath = [], el_day = [], el_night = [], el_feast = [],
       el_all = [builtin_event ''%0 die%e1'' 1 [0] []] \<rparr>"

definition fatal_slip_game :: Game where
  "fatal_slip_game = Game_new default_options [tribute_A, tribute_B] fatal_slip 0"



section \<open>Message templates\<close>

subsection \<open>The scan for the next placeholder\<close>






subsection \<open>The players an event involves\<close>

text \<open>
  C3. The claim: \<^verbatim>\<open>players_involved\<close> is one more than the highest slot a template
  references, counting \<^verbatim>\<open>%d\<close> and every specifier \<^verbatim>\<open>N A G R s y i h e ! w\<close> followed by
  a digit. The regular expression of \<^verbatim>\<open>CalculateTributesInvolved\<close> leaves out \<^verbatim>\<open>e\<close> and
  \<^verbatim>\<open>w\<close>, which the composer does read: for \<^verbatim>\<open>%0 watch%e1\<close> the code computes one player
  where the template references slot 1, the constructor accepts the event, and its
  message cannot be composed.
\<close>

theorem players_involved_misses_e_and_w:
  "CalculateTributesInvolved ''%0 watch%e1'' = 1 \<and>
   spec_players_involved ''%0 watch%e1'' = 2 \<and>
   Event_new (-1) ''%0 watch%e1'' [] [] ''BUILTIN'' = Inr (builtin_event ''%0 watch%e1'' 1 [] []) \<and>
   ComposeEventMessage (builtin_event ''%0 watch%e1'' 1 [] []) [tribute_A] = Inl (IndexOutOfBounds 1)"
  by code_simp

text \<open>The two examples of the claim do hold.\<close>

lemma players_involved_examples:
  "CalculateTributesInvolved ''%0 and %2 fight'' = 3 \<and>
   Event_new last_id ''no placeholders'' f k ty = Inl (IllFormedEvent 0)"
  by (simp add: CalculateTributesInvolved_def Event_new_def isdigit_def charCodeAt0_def
      char_zero_def char_nine_def last_digit_def trim_def is_space_def Let_def)

lemma Event_new_players_involved:
  assumes "Event_new last_id msg f k ty = Inr e"
  shows "players_involved e = CalculateTributesInvolved msg"
    and "1 \<le> players_involved e" and "players_involved e \<le> 9"
  using assms by (auto simp: Event_new_def Let_def split: if_splits)

text \<open>
  Apart from the specifiers \<^verbatim>\<open>e\<close> and \<^verbatim>\<open>w\<close> the code and the specification agree: for a
  template without \<^verbatim>\<open>%e\<close> or \<^verbatim>\<open>%w\<close> followed by a digit, the matches of the regular
  expression are the slots the template references.
\<close>

lemma specifier_not_digit: "l \<in> set ''NAGRsyihe!w'' \<Longrightarrow> \<not> isdigit l"
  by (auto simp: isdigit_def charCodeAt0_def char_zero_def char_nine_def Let_def)

lemma specifier_split:
  "l \<in> set ''NAGRsyihe!w'' \<longleftrightarrow> l \<in> set ''NAGRsyih!'' \<or> l = CHR ''e'' \<or> l = CHR ''w''"
  by auto

lemma regex_matches_slots:
  "\<not> mentions_e_or_w m \<Longrightarrow> map last_digit (regex_matches m) = spec_referenced_slots m"
proof (induction m rule: regex_matches.induct)
  case (1 p l d rest)
  show ?case
  proof (cases "p = CHR ''%'' \<and> l \<in> set ''NAGRsyih!'' \<and> isdigit d")
    case True
    then have sp: "p = CHR ''%'' \<and> l \<in> set ''NAGRsyihe!w'' \<and> isdigit d"
      using specifier_split by blast
    then have nl: "\<not> (p = CHR ''%'' \<and> isdigit l)"
      using specifier_not_digit by blast
    have r: "regex_matches (p # l # d # rest) = [p, l, d] # regex_matches rest"
      by (simp only: regex_matches.simps if_P[OF True])
    have s: "spec_referenced_slots (p # l # d # rest) =
               (charCodeAt0 d - char_zero) # spec_referenced_slots rest"
      by (simp only: spec_referenced_slots.simps if_not_P[OF nl] if_P[OF sp])
    have "\<not> mentions_e_or_w rest"
      using "1.prems" by (cases rest rule: mentions_e_or_w.cases) auto
    with "1.IH"(1)[OF True] show ?thesis
      by (simp only: r s list.map last_digit_def last.simps) simp
  next
    case nomatch: False
    show ?thesis
    proof (cases "p = CHR ''%'' \<and> isdigit l")
      case True
      have r: "regex_matches (p # l # d # rest) = [p, l] # regex_matches (d # rest)"
        by (simp only: regex_matches.simps if_not_P[OF nomatch] if_P[OF True])
      have s: "spec_referenced_slots (p # l # d # rest) =
                 (charCodeAt0 l - char_zero) # spec_referenced_slots (d # rest)"
        by (simp only: spec_referenced_slots.simps if_P[OF True])
      have "\<not> mentions_e_or_w (d # rest)"
        using "1.prems" by (cases rest rule: mentions_e_or_w.cases) auto
      with "1.IH"(2)[OF nomatch True] show ?thesis
        by (simp only: r s list.map last_digit_def last.simps) simp
    next
      case False
      from "1.prems" have rest: "\<not> mentions_e_or_w (l # d # rest)" by simp
      have nospec: "\<not> (p = CHR ''%'' \<and> l \<in> set ''NAGRsyihe!w'' \<and> isdigit d)"
      proof
        assume a: "p = CHR ''%'' \<and> l \<in> set ''NAGRsyihe!w'' \<and> isdigit d"
        with nomatch have "l = CHR ''e'' \<or> l = CHR ''w''"
          using specifier_split by blast
        with a "1.prems" show False by simp
      qed
      have r: "regex_matches (p # l # d # rest) = regex_matches (l # d # rest)"
        by (simp only: regex_matches.simps if_not_P[OF nomatch] if_not_P[OF False])
      have s: "spec_referenced_slots (p # l # d # rest) = spec_referenced_slots (l # d # rest)"
        by (simp only: spec_referenced_slots.simps if_not_P[OF False] if_not_P[OF nospec])
      from "1.IH"(3)[OF nomatch False rest] show ?thesis
        by (simp only: r s)
    qed
  qed
qed (simp_all add: last_digit_def)

lemma foldl_max_Max: "xs \<noteq> [] \<Longrightarrow> foldl max (0::nat) xs = Max (set xs)"
proof -
  have "foldl max a xs = Max (insert a (set xs))" for a :: nat
  proof (induction xs arbitrary: a)
    case Nil
    then show ?case by simp
  next
    case (Cons x xs)
    have "Max (insert (max a x) (set xs)) = Max (insert a (insert x (set xs)))"
      by (cases "set xs = {}") (simp_all add: max.assoc)
    with Cons show ?case by simp
  qed
  moreover assume "xs \<noteq> []"
  ultimately show ?thesis by (simp add: max_def Max_insert)
qed

lemma CalculateTributesInvolved_spec:
  assumes "\<not> mentions_e_or_w m"
  shows "CalculateTributesInvolved m = spec_players_involved m"
proof -
  from regex_matches_slots[OF assms]
  have slots: "map last_digit (regex_matches m) = spec_referenced_slots m" .
  then have "regex_matches m = [] \<longleftrightarrow> spec_referenced_slots m = []" by auto
  with slots show ?thesis
    by (auto simp: CalculateTributesInvolved_def spec_players_involved_def Let_def foldl_max_Max
        simp del: foldl_conv_fold)
qed

lemma Event_new_agrees_with_spec:
  assumes "\<not> mentions_e_or_w msg" and "Event_new last_id msg f k ty = Inr e"
  shows "players_involved e = spec_players_involved msg"
  using assms CalculateTributesInvolved_spec Event_new_players_involved(1) by simp

subsection \<open>Composition\<close>

text \<open>
  C4. The claim: composition succeeds whenever every referenced slot is in range, and a
  pronoun or suffix letter that is not followed by a digit stays in the output as
  literal text, also when the letter ends the string. The code reads \<^verbatim>\<open>m[i]\<close> past the
  end of the string there and \<^verbatim>\<open>isdigit\<close> throws on \<^verbatim>\<open>undefined\<close>: the constructor
  accepts \<^verbatim>\<open>%0 is 100%N\<close> with one player, and composing it throws.
\<close>

theorem compose_specifier_at_end_throws:
  "Event_new (-1) ''%0 is 100%N'' [] [] ''BUILTIN'' = Inr (builtin_event ''%0 is 100%N'' 1 [] []) \<and>
   ComposeEventMessage (builtin_event ''%0 is 100%N'' 1 [] []) [tribute_A] = Inl TypeError"
  by code_simp

text \<open>An unknown specifier does stay in the output, as the claim's example says.\<close>

lemma compose_unknown_specifier:
  "ComposeEventMessage (event\<lparr>message := ''100%Q0 sure'', players_involved := 1\<rparr>) [a] =
     Inr [Str ''100'', Str ''%Q0 sure'']"
  by (simp add: ComposeEventMessage_def compose_loop.simps scan_literal.simps Let_def slice_def
      digit_cases_def specifier_cases_def)

text \<open>
  C6, as the code has it: composing \<^verbatim>\<open>%0 kills %1.\<close> with the participants \<open>a\<close> and \<open>b\<close>
  gives the empty literal run before the first placeholder, then the name reference of
  \<open>a\<close>, \<^verbatim>\<open>" kills "\<close>, the name reference of \<open>b\<close> and \<^verbatim>\<open>"."\<close>, as five separate segments.
\<close>

theorem compose_kills_template:
  "ComposeEventMessage (event\<lparr>message := ''%0 kills %1.'', players_involved := 2\<rparr>) [a, b] =
     Inr [Str [], Span (name a), Str '' kills '', Span (name b), Str ''.'']"
  by (simp add: ComposeEventMessage_def compose_loop.simps scan_literal.simps Let_def slice_def
      digit_cases_def specifier_cases_def check_bounds_def elem_at_def charCodeAt0_def char_zero_def)

text \<open>
  C6 as stated fails: the output is not the four segments of the claim, since the empty
  run before \<^verbatim>\<open>%0\<close> is pushed too.
\<close>

theorem compose_kills_template_not_four_segments:
  "ComposeEventMessage (builtin_event ''%0 kills %1.'' 2 [1] [0]) [tribute_A, tribute_B] \<noteq>
     Inr [Span (name tribute_A), Str '' kills '', Span (name tribute_B), Str ''.'']"
  by code_simp




section \<open>Round simulation\<close>

subsection \<open>What the selection loop does not change\<close>

lemma elem_at_in_set: "elem_at xs i = Some x \<Longrightarrow> x \<in> set xs"
  by (auto simp: elem_at_def split: if_splits)

lemma round_frame_refl: "round_frame g g"
  by (simp add: round_frame_def)

lemma round_frame_trans: "round_frame g g1 \<Longrightarrow> round_frame g1 g2 \<Longrightarrow> round_frame g g2"
  by (simp add: round_frame_def)

lemma map_update_same: "f x = f (xs ! i) \<Longrightarrow> map f (xs[i := x]) = map f xs"
  by (cases "i < length xs") (auto simp: list_eq_iff_nth_eq nth_list_update)

lemma round_frame_random_calls: "round_frame g (g\<lparr>random_calls := n\<rparr>)"
  by (simp add: round_frame_def)

lemma mark_dead_frame: "round_frame g (mark_dead ridx t g)"
  by (simp add: round_frame_def mark_dead_def Let_def map_update_same)

lemma handle_fatalities_frame:
  "handle_fatalities ridx cur fs ac died g = (r, g') \<Longrightarrow> round_frame g g'"
proof (induction fs arbitrary: ac died g)
  case Nil
  then show ?case by (simp add: round_frame_refl)
next
  case (Cons f fs)
  show ?case
  proof (cases "elem_at (tributes_alive g) (cur + f)")
    case None
    with Cons.prems show ?thesis by (simp add: round_frame_refl)
  next
    case (Some t)
    with Cons.prems have "handle_fatalities ridx cur fs (ac - 1) (died + 1) (mark_dead ridx t g) = (r, g')"
      by simp
    from Cons.IH[OF this] mark_dead_frame show ?thesis
      by (rule round_frame_trans[rotated])
  qed
qed

lemma credit_killers_frame:
  "credit_killers n cur ks g = (r, g') \<Longrightarrow> round_frame g g'"
proof (induction ks arbitrary: g)
  case Nil
  then show ?case by (simp add: round_frame_refl)
next
  case (Cons k ks)
  show ?case
  proof (cases "elem_at (tributes_alive g) (cur + k)")
    case None
    with Cons.prems show ?thesis by (simp add: round_frame_refl)
  next
    case (Some t)
    let ?g1 = "g\<lparr>tributes := (tributes g)[t := (tributes g ! t)\<lparr>kills := kills (tributes g ! t) + n\<rparr>]\<rparr>"
    from Some Cons.prems have "credit_killers n cur ks ?g1 = (r, g')" by simp
    from Cons.IH[OF this] have "round_frame ?g1 g'" .
    moreover have "round_frame g ?g1" by (simp add: round_frame_def)
    ultimately show ?thesis by (rule round_frame_trans[rotated])
  qed
qed

lemma accept_event_frame:
  assumes "accept_event ridx event cur ac died g = (r, g')"
  shows "round_frame g g'"
proof -
  obtain r1 g1 where hf: "handle_fatalities ridx cur (fatalities event) ac died g = (r1, g1)"
    by (cases "handle_fatalities ridx cur (fatalities event) ac died g")
  then have f1: "round_frame g g1" by (rule handle_fatalities_frame)
  show ?thesis
  proof (cases r1)
    case (Inl e)
    with assms hf f1 show ?thesis by (simp add: accept_event_def)
  next
    case (Inr counters)
    obtain r2 g2 where ck: "credit_killers (length (fatalities event)) cur (killers event) g1 = (r2, g2)"
      by (cases "credit_killers (length (fatalities event)) cur (killers event) g1")
    then have f2: "round_frame g g2" using f1 credit_killers_frame round_frame_trans by blast
    have f3: "round_frame g2 (g2\<lparr>rounds := (rounds g2)[ridx := (rounds g2 ! ridx)\<lparr>game_events := evs'\<rparr>]\<rparr>)" for evs'
      by (simp add: round_frame_def map_update_same)
    from assms hf Inr ck f2 f3 show ?thesis
      by (auto simp: accept_event_def Let_def split: option.splits sum.splits intro: round_frame_trans)
  qed
qed

lemma RequirementsSatisfied_frame:
  "RequirementsSatisfied rnd g event cur left died = (r, g') \<Longrightarrow> round_frame g g'"
  by (auto simp: RequirementsSatisfied_def Let_def round_frame_def split: if_splits prod.splits)

lemma draw_event_unfold:
  assumes "\<not> tries > max 100 (length evs * 10)"
    and "randomInt rnd 0 (int (length evs)) (random_calls g) = (k, n1)"
  shows "draw_event rnd evs cur left died tries g =
     (case (if k < 0 then None else elem_at evs (nat k)) of
        None \<Rightarrow> (Inl TypeError, tries + 1, g\<lparr>random_calls := n1\<rparr>)
      | Some event \<Rightarrow>
         (case RequirementsSatisfied rnd (g\<lparr>random_calls := n1\<rparr>) event cur left died of
            (Inl e, g2) \<Rightarrow> (Inl e, tries + 1, g2)
          | (Inr True, g2) \<Rightarrow> (Inr (Some event), tries + 1, g2)
          | (Inr False, g2) \<Rightarrow> draw_event rnd evs cur left died (tries + 1) g2))"
  by (subst draw_event.simps, subst if_not_P[OF assms(1)]) (simp add: assms(2) Let_def)

lemma draw_event_frame:
  "draw_event rnd evs cur left died tries g = (r, t, g') \<Longrightarrow> round_frame g g'"
proof (induction rnd evs cur left died tries g rule: draw_event.induct)
  case (1 rnd evs cur left died tries g)
  show ?case
  proof (cases "tries > max 100 (length evs * 10)")
    case True
    then have "draw_event rnd evs cur left died tries g = (Inr None, tries + 1, g)"
      by (subst draw_event.simps) (simp only: if_True)
    with "1.prems" show ?thesis by (simp add: round_frame_refl)
  next
    case False
    obtain k n1 where ri: "randomInt rnd 0 (int (length evs)) (random_calls g) = (k, n1)"
      by (cases "randomInt rnd 0 (int (length evs)) (random_calls g)")
    let ?g1 = "g\<lparr>random_calls := n1\<rparr>"
    have fg1: "round_frame g ?g1" by (rule round_frame_random_calls)
    note eq = draw_event_unfold[OF False ri, of cur left died]
    show ?thesis
    proof (cases "if k < 0 then None else elem_at evs (nat k)")
      case None
      with "1.prems" eq fg1 show ?thesis by simp
    next
      case (Some event)
      obtain rr g2 where rs: "RequirementsSatisfied rnd ?g1 event cur left died = (rr, g2)"
        by (cases "RequirementsSatisfied rnd ?g1 event cur left died")
      then have fg2: "round_frame g g2"
        using fg1 RequirementsSatisfied_frame round_frame_trans by blast
      show ?thesis
      proof (cases rr)
        case (Inl e)
        with "1.prems" eq Some rs fg2 show ?thesis by simp
      next
        case (Inr b)
        show ?thesis
        proof (cases b)
          case True
          with "1.prems" eq Some rs fg2 Inr show ?thesis by simp
        next
          case b: False
          with "1.prems" eq Some rs Inr
          have "draw_event rnd evs cur left died (tries + 1) g2 = (r, t, g')" by simp
          moreover from b have "b = False" by simp
          ultimately have "round_frame g2 g'"
            using "1.IH"[OF False refl ri[symmetric] refl Some rs[symmetric] Inr] by blast
          with fg2 show ?thesis by (rule round_frame_trans)
        qed
      qed
    qed
  qed
qed

text \<open>
  An invariant of the selection loop: what holds before the loop and is kept by the
  choice of an event and by its acceptance holds when the loop ends.
\<close>

lemma select_loop_rule:
  assumes "select_loop rnd evs ridx left ac cur died g = Some res"
    and "I g"
    and "\<And>g cur left died r t g1.
        I g \<Longrightarrow> draw_event rnd evs cur left died 0 g = (r, t, g1) \<Longrightarrow> I g1"
    and "\<And>g event cur ac died r g1.
        I g \<Longrightarrow> accept_event ridx event cur ac died g = (r, g1) \<Longrightarrow> I g1"
  shows "I (snd res)"
  using assms
proof (induction rule: select_loop.raw_induct[rotated 1, consumes 1])
  case (1 loop rnd evs ridx left ac cur died g res)
  note IH = "1"(1) and eq = "1"(2) and Ig = "1"(3) and draw = "1"(4) and accept = "1"(5)
  show ?case
  proof (cases "left = 0")
    case True
    with eq Ig show ?thesis by auto
  next
    case False
    obtain r t g1 where dr: "draw_event rnd evs cur left died 0 g = (r, t, g1)"
      by (cases "draw_event rnd evs cur left died 0 g")
    with Ig draw have I1: "I g1" by blast
    show ?thesis
    proof (cases r)
      case (Inl e)
      with eq False dr I1 show ?thesis by auto
    next
      case (Inr choice)
      show ?thesis
      proof (cases choice)
        case None
        with eq False dr I1 Inr show ?thesis by auto
      next
        case (Some event)
        obtain r2 g2 where ae: "accept_event ridx event cur ac died g1 = (r2, g2)"
          by (cases "accept_event ridx event cur ac died g1")
        with I1 accept have I2: "I g2" by blast
        show ?thesis
        proof (cases r2)
          case (Inl e)
          with eq False dr Inr Some ae I2 show ?thesis by auto
        next
          case r2: (Inr counters)
          obtain ac1 died1 where c: "counters = (ac1, died1)" by (cases counters)
          show ?thesis
          proof (cases "ac1 < 2")
            case True
            with eq False dr Inr Some ae I2 r2 c show ?thesis by auto
          next
            case nl: False
            with eq False dr Inr Some ae r2 c
            have "loop rnd evs ridx (left - players_involved event) ac1
                    (cur + players_involved event) died1 g2 = Some res"
              by simp
            from IH[OF this I2 draw accept] show ?thesis .
          qed
        qed
      qed
    qed
  qed
qed

lemma select_loop_frame:
  assumes "select_loop rnd evs ridx left ac cur died g = Some (err, g')"
  shows "round_frame g g'"
proof -
  have "round_frame g (snd (err, g'))"
  proof (rule select_loop_rule[OF assms, where I = "round_frame g"])
    show "round_frame g g" by (rule round_frame_refl)
  next
    fix ga cur left died r t g1
    assume "round_frame g ga" "draw_event rnd evs cur left died 0 ga = (r, t, g1)"
    then show "round_frame g g1" using draw_event_frame round_frame_trans by blast
  next
    fix ga event cur ac died r g1
    assume "round_frame g ga" "accept_event ridx event cur ac died ga = (r, g1)"
    then show "round_frame g g1" using accept_event_frame round_frame_trans by blast
  qed
  then show ?thesis by simp
qed

subsection \<open>The effect of one round on the stages\<close>

lemma finish_round_frame:
  "stage (finish_round rnd ridx g) = stage g"
  "last_feast (finish_round rnd ridx g) = last_feast g"
  "state (finish_round rnd ridx g) = state g"
  "all_won (finish_round rnd ridx g) = all_won g"
  "event_list (finish_round rnd ridx g) = event_list g"
  "required_fatalities (finish_round rnd ridx g) = required_fatalities g"
  "map round_stage (rounds (finish_round rnd ridx g)) = map round_stage (rounds g)"
  by (simp_all add: finish_round_def Let_def map_update_same split: prod.splits)

lemma DoRoundImpl_effect:
  assumes "DoRoundImpl rnd g = Some (err, g')"
  shows "stage g' = stage g \<and> last_feast g' = last_feast g \<and> state g' = state g \<and>
         all_won g' = all_won g \<and> event_list g' = event_list g \<and>
         required_fatalities g' = required_fatalities g \<and>
         map round_stage (rounds g') = map round_stage (rounds g) @ [stage g]"
proof -
  obtain shuffled n1 where sh: "shuffle rnd (tributes_alive g) (random_calls g) = (shuffled, n1)"
    by (cases "shuffle rnd (tributes_alive g) (random_calls g)")
  define g3 where "g3 = g\<lparr>game_title := round_title g,
      rounds := rounds g @ [\<lparr> game_events = [], died_this_round = [],
                    round_index = length (rounds g), round_stage = stage g \<rparr>],
      tributes_alive := shuffled, random_calls := n1\<rparr>"
  have g3: "stage g3 = stage g" "last_feast g3 = last_feast g" "state g3 = state g"
    "all_won g3 = all_won g" "event_list g3 = event_list g"
    "required_fatalities g3 = required_fatalities g"
    "map round_stage (rounds g3) = map round_stage (rounds g) @ [stage g]"
    by (simp_all add: g3_def)
  show ?thesis
  proof (cases "length (stage_event_list g3) = 0")
    case True
    with assms sh have "g' = g3"
      by (simp add: DoRoundImpl_def Let_def g3_def)
    with g3 show ?thesis by simp
  next
    case False
    with assms sh obtain r4 g4 where
      loop: "select_loop rnd (stage_event_list g3) (length (rounds g)) (length (tributes_alive g))
               (int (length (tributes_alive g))) 0 0 g3 = Some (r4, g4)" and
      res: "g' = g4 \<or> g' = finish_round rnd (length (rounds g)) g4"
      by (auto simp: DoRoundImpl_def Let_def g3_def split: option.splits)
    from select_loop_frame[OF loop] have "round_frame g3 g4" .
    with g3 have g4: "stage g4 = stage g" "last_feast g4 = last_feast g" "state g4 = state g"
      "all_won g4 = all_won g" "event_list g4 = event_list g"
      "required_fatalities g4 = required_fatalities g"
      "map round_stage (rounds g4) = map round_stage (rounds g) @ [stage g]"
      by (simp_all add: round_frame_def)
    from res g4 show ?thesis
      by (auto simp: finish_round_frame)
  qed
qed

lemma AdvanceGameStage_rounds:
  "AdvanceGameStage rnd g = (st, g1) \<Longrightarrow> rounds g1 = rounds g"
  by (auto simp: AdvanceGameStage_def Let_def split: if_splits prod.splits)

lemma AdvanceGameStage_opening:
  assumes inv: "stage_inv g" and step: "AdvanceGameStage rnd g = (st, g1)"
  shows "(2 < length (rounds g) \<or> last_feast g1 = 0) \<and>
         take 4 (map round_stage (rounds g) @ [st]) =
           take (Suc (length (rounds g))) [BLOODBATH, DAY, NIGHT, DAY]"
proof -
  consider (r0) "rounds g = []" | (r1) a where "rounds g = [a]" | (r2) a b where "rounds g = [a, b]"
    | (r3) a b c where "rounds g = [a, b, c]" | (r4) a b c d rest where "rounds g = a # b # c # d # rest"
    by (cases "rounds g" rule: list.exhaust; simp; metis list.exhaust)
  then show ?thesis
  proof cases
    case r0
    with inv step show ?thesis by (auto simp: stage_inv_def AdvanceGameStage_def)
  next
    case r1
    with inv step show ?thesis by (auto simp: stage_inv_def AdvanceGameStage_def)
  next
    case r2
    with inv step show ?thesis by (auto simp: stage_inv_def AdvanceGameStage_def)
  next
    case r3
    with inv step show ?thesis by (auto simp: stage_inv_def AdvanceGameStage_def Let_def)
  next
    case r4
    with inv show ?thesis by (auto simp: stage_inv_def)
  qed
qed

lemma DoRound_stage_inv:
  assumes inv: "stage_inv g" and step: "DoRound rnd g = Some (err, g')"
  shows "stage_inv g'"
proof -
  obtain st g1 where ags: "AdvanceGameStage rnd g = (st, g1)"
    by (cases "AdvanceGameStage rnd g")
  from step ags obtain e3 g3 where
    impl: "DoRoundImpl rnd (g1\<lparr>stage := st\<rparr>) = Some (e3, g3)" and
    g': "g' = g3 \<or> g' = fst (snd (CheckGameShouldEnd g3), ()) \<or>
         g' = (snd (CheckGameShouldEnd g3))\<lparr>state := THE_FALLEN\<rparr>"
    by (auto simp: DoRound_def Let_def split: option.splits prod.splits if_splits)
  have same: "stage g' = stage g3 \<and> last_feast g' = last_feast g3 \<and> rounds g' = rounds g3"
    using g' by (auto simp: CheckGameShouldEnd_def)
  from DoRoundImpl_effect[OF impl] AdvanceGameStage_rounds[OF ags]
  have g3: "stage g3 = st" "last_feast g3 = last_feast g1"
    "map round_stage (rounds g3) = map round_stage (rounds g) @ [st]"
    by simp_all
  from g3(3) have len: "length (rounds g3) = Suc (length (rounds g))"
    by (metis length_append_singleton length_map)
  from len have ne: "rounds g3 \<noteq> []" by auto
  from g3(3) have "last (map round_stage (rounds g3)) = st" by simp
  with ne have lst: "rounds g3 \<noteq> []" "round_stage (last (rounds g3)) = st"
    by (simp_all add: last_map)
  from AdvanceGameStage_opening[OF inv ags] same g3 len lst show ?thesis
    by (auto simp: stage_inv_def)
qed

lemma AdvanceGame_stage_inv:
  assumes inv: "stage_inv g" and step: "AdvanceGame rnd g = Some (res, g')"
  shows "stage_inv g'"
proof (cases "state g = NEW_ROUND \<or> state g = IN_ROUND")
  case True
  have "stage_inv (StartNewRound (g\<lparr>state := IN_ROUND\<rparr>))"
    using inv by (simp add: stage_inv_def StartNewRound_def)
  with True inv step DoRound_stage_inv show ?thesis
    by (auto simp: AdvanceGame_def Let_def split: option.splits prod.splits)
next
  case False
  with step have "rounds g' = rounds g \<and> stage g' = stage g \<and> last_feast g' = last_feast g"
    by (cases "state g") (auto simp: AdvanceGame_def Let_def)
  with inv show ?thesis by (simp add: stage_inv_def)
qed

lemma advance_times_stage_inv:
  "stage_inv g \<Longrightarrow> advance_times rnd n g = Some (results, g') \<Longrightarrow> stage_inv g'"
proof (induction n arbitrary: g results)
  case 0
  then show ?case by simp
next
  case (Suc n)
  from Suc.prems(2) obtain res g1 rest where
    "AdvanceGame rnd g = Some (res, g1)" "advance_times rnd n g1 = Some (rest, g')"
    by (auto split: option.splits prod.splits)
  with Suc.IH Suc.prems(1) AdvanceGame_stage_inv show ?case by blast
qed

lemma Game_new_stage_inv: "stage_inv (Game_new opts ts events rate)"
  by (simp add: stage_inv_def Game_new_def)

subsection \<open>The shuffle and the tributes a round touches\<close>

lemma rand_val_range: "0 \<le> rand_val r \<and> rand_val r < 1"
  by transfer simp

lemma randomInt_range:
  assumes "0 < hi" and "randomInt rnd 0 hi n = (j, n1)"
  shows "0 \<le> j \<and> j < hi"
proof -
  let ?r = "rand_val (rnd n)"
  from assms(2) have j: "j = \<lfloor>?r * of_int hi\<rfloor>"
    by (simp add: randomInt_def Math_random_def)
  from rand_val_range[of "rnd n"] assms(1) have "0 \<le> ?r * of_int hi" "?r * of_int hi < of_int hi"
    by (simp_all add: mult_less_cancel_right2)
  with j show ?thesis by (simp add: floor_less_iff)
qed

lemma shuffle_loop_mset:
  "i < length xs \<Longrightarrow> shuffle_loop rnd i xs n = (ys, n') \<Longrightarrow> mset ys = mset xs"
proof (induction i arbitrary: xs n)
  case 0
  then show ?case by simp
next
  case (Suc i)
  obtain j n1 where ri: "randomInt rnd 0 (int (Suc i)) n = (j, n1)"
    by (cases "randomInt rnd 0 (int (Suc i)) n")
  from randomInt_range[OF _ ri] have j: "nat j < length xs"
    using Suc.prems(1) by auto
  let ?xs' = "xs[Suc i := xs ! nat j, nat j := xs ! Suc i]"
  from Suc.prems(2) ri have "shuffle_loop rnd i ?xs' n1 = (ys, n')"
    by (simp add: Let_def)
  moreover have "i < length ?xs'" using Suc.prems(1) by simp
  ultimately have "mset ys = mset ?xs'" by (rule Suc.IH[rotated])
  also have "\<dots> = mset xs" using j Suc.prems(1) by (rule mset_swap)
  finally show ?case .
qed

lemma shuffle_mset:
  assumes "shuffle rnd xs n = (ys, n')"
  shows "mset ys = mset xs"
proof (cases "length xs < 2")
  case True
  with assms show ?thesis by (simp add: shuffle_def)
next
  case False
  with assms have "shuffle_loop rnd (length xs - 1) xs n = (ys, n')"
    by (simp add: shuffle_def)
  moreover from False have "length xs - 1 < length xs" by simp
  ultimately show ?thesis by (rule shuffle_loop_mset[rotated])
qed

lemma store_frame_refl: "store_frame g g"
  by (simp add: store_frame_def)

lemma store_frame_trans: "store_frame g g1 \<Longrightarrow> store_frame g1 g2 \<Longrightarrow> store_frame g g2"
  by (simp add: store_frame_def)

lemma store_frame_random_calls: "store_frame g (g\<lparr>random_calls := n\<rparr>)"
  by (simp add: store_frame_def)

lemma RequirementsSatisfied_store:
  "RequirementsSatisfied rnd g event cur left died = (r, g') \<Longrightarrow> store_frame g g'"
  by (auto simp: RequirementsSatisfied_def Let_def store_frame_def split: if_splits prod.splits)

lemma draw_event_store:
  "draw_event rnd evs cur left died tries g = (r, t, g') \<Longrightarrow> store_frame g g'"
proof (induction rnd evs cur left died tries g rule: draw_event.induct)
  case (1 rnd evs cur left died tries g)
  show ?case
  proof (cases "tries > max 100 (length evs * 10)")
    case True
    then have "draw_event rnd evs cur left died tries g = (Inr None, tries + 1, g)"
      by (subst draw_event.simps) (simp only: if_True)
    with "1.prems" show ?thesis by (simp add: store_frame_refl)
  next
    case False
    obtain k n1 where ri: "randomInt rnd 0 (int (length evs)) (random_calls g) = (k, n1)"
      by (cases "randomInt rnd 0 (int (length evs)) (random_calls g)")
    let ?g1 = "g\<lparr>random_calls := n1\<rparr>"
    have fg1: "store_frame g ?g1" by (rule store_frame_random_calls)
    note eq = draw_event_unfold[OF False ri, of cur left died]
    show ?thesis
    proof (cases "if k < 0 then None else elem_at evs (nat k)")
      case None
      with "1.prems" eq fg1 show ?thesis by simp
    next
      case (Some event)
      obtain rr g2 where rs: "RequirementsSatisfied rnd ?g1 event cur left died = (rr, g2)"
        by (cases "RequirementsSatisfied rnd ?g1 event cur left died")
      from RequirementsSatisfied_store[OF rs] fg1 have fg2: "store_frame g g2"
        by (rule store_frame_trans[rotated])
      show ?thesis
      proof (cases rr)
        case (Inl e)
        with "1.prems" eq Some rs fg2 show ?thesis by simp
      next
        case (Inr b)
        show ?thesis
        proof (cases b)
          case True
          with "1.prems" eq Some rs fg2 Inr show ?thesis by simp
        next
          case b: False
          with "1.prems" eq Some rs Inr
          have "draw_event rnd evs cur left died (tries + 1) g2 = (r, t, g')" by simp
          moreover from b have "b = False" by simp
          ultimately have "store_frame g2 g'"
            using "1.IH"[OF False refl ri[symmetric] refl Some rs[symmetric] Inr] by blast
          with fg2 show ?thesis by (rule store_frame_trans)
        qed
      qed
    qed
  qed
qed

lemma update_outside_roster:
  "t \<in> set (tributes_alive g) \<Longrightarrow> store_frame g (g\<lparr>tributes := (tributes g)[t := x]\<rparr>)"
proof -
  assume t: "t \<in> set (tributes_alive g)"
  have "(tributes g)[t := x] ! u = tributes g ! u" if "u \<notin> set (tributes_alive g)" for u
  proof -
    from that t have "t \<noteq> u" by auto
    then show ?thesis by (rule nth_list_update_neq)
  qed
  then show ?thesis by (simp add: store_frame_def)
qed

lemma mark_dead_store:
  assumes "t \<in> set (tributes_alive g)"
  shows "store_frame g (mark_dead ridx t g)"
proof -
  let ?g1 = "g\<lparr>tributes := (tributes g)[t := (tributes g ! t)\<lparr>died_in_round := Some ridx\<rparr>]\<rparr>"
  from assms have "store_frame g ?g1" by (rule update_outside_roster)
  moreover have "store_frame ?g1 (mark_dead ridx t g)"
    by (simp add: store_frame_def mark_dead_def Let_def)
  ultimately show ?thesis by (rule store_frame_trans)
qed

lemma handle_fatalities_store:
  "handle_fatalities ridx cur fs ac died g = (r, g') \<Longrightarrow> store_frame g g'"
proof (induction fs arbitrary: ac died g)
  case Nil
  then show ?case by (simp add: store_frame_refl)
next
  case (Cons f fs)
  show ?case
  proof (cases "elem_at (tributes_alive g) (cur + f)")
    case None
    with Cons.prems show ?thesis by (simp add: store_frame_refl)
  next
    case (Some t)
    then have "t \<in> set (tributes_alive g)" by (rule elem_at_in_set)
    then have "store_frame g (mark_dead ridx t g)" by (rule mark_dead_store)
    moreover from Some Cons.prems
    have "handle_fatalities ridx cur fs (ac - 1) (died + 1) (mark_dead ridx t g) = (r, g')"
      by simp
    then have "store_frame (mark_dead ridx t g) g'" by (rule Cons.IH)
    ultimately show ?thesis by (rule store_frame_trans)
  qed
qed

lemma credit_killers_store:
  "credit_killers n cur ks g = (r, g') \<Longrightarrow> store_frame g g'"
proof (induction ks arbitrary: g)
  case Nil
  then show ?case by (simp add: store_frame_refl)
next
  case (Cons k ks)
  show ?case
  proof (cases "elem_at (tributes_alive g) (cur + k)")
    case None
    with Cons.prems show ?thesis by (simp add: store_frame_refl)
  next
    case (Some t)
    let ?g1 = "g\<lparr>tributes := (tributes g)[t := (tributes g ! t)\<lparr>kills := kills (tributes g ! t) + n\<rparr>]\<rparr>"
    from Some have "t \<in> set (tributes_alive g)" by (rule elem_at_in_set)
    then have "store_frame g ?g1" by (rule update_outside_roster)
    moreover from Some Cons.prems have "credit_killers n cur ks ?g1 = (r, g')" by simp
    then have "store_frame ?g1 g'" by (rule Cons.IH)
    ultimately show ?thesis by (rule store_frame_trans)
  qed
qed

lemma accept_event_store:
  assumes "accept_event ridx event cur ac died g = (r, g')"
  shows "store_frame g g'"
proof -
  obtain r1 g1 where hf: "handle_fatalities ridx cur (fatalities event) ac died g = (r1, g1)"
    by (cases "handle_fatalities ridx cur (fatalities event) ac died g")
  then have f1: "store_frame g g1" by (rule handle_fatalities_store)
  show ?thesis
  proof (cases r1)
    case (Inl e)
    with assms hf f1 show ?thesis by (simp add: accept_event_def)
  next
    case (Inr counters)
    obtain r2 g2 where ck: "credit_killers (length (fatalities event)) cur (killers event) g1 = (r2, g2)"
      by (cases "credit_killers (length (fatalities event)) cur (killers event) g1")
    then have f2: "store_frame g g2" using f1 credit_killers_store store_frame_trans by blast
    have f3: "store_frame g (g2\<lparr>rounds := rs\<rparr>)" for rs
      using f2 by (simp add: store_frame_def)
    show ?thesis
    proof (cases r2)
      case (Some e)
      with assms hf Inr ck f2 show ?thesis by (simp add: accept_event_def)
    next
      case None
      let ?ge = "GameEvent_new (tributes g2) event
                   (map (\<lambda>k. tributes_alive g2 ! k) [cur..<cur + players_involved event])"
      show ?thesis
      proof (cases ?ge)
        case (Inl e)
        with assms hf Inr ck None f2 show ?thesis by (simp add: accept_event_def Let_def)
      next
        case r: (Inr ge)
        with assms hf Inr ck None have "g' = g2\<lparr>rounds := (rounds g2)[ridx :=
            (rounds g2 ! ridx)\<lparr>game_events := game_events (rounds g2 ! ridx) @ [ge]\<rparr>]\<rparr>"
          by (simp add: accept_event_def Let_def)
        with f3 show ?thesis by simp
      qed
    qed
  qed
qed

lemma select_loop_store:
  assumes "select_loop rnd evs ridx left ac cur died g = Some (err, g')"
  shows "store_frame g g'"
proof -
  have "store_frame g (snd (err, g'))"
  proof (rule select_loop_rule[OF assms, where I = "store_frame g"])
    show "store_frame g g" by (rule store_frame_refl)
  next
    fix ga cur left died r t g1
    assume "store_frame g ga" "draw_event rnd evs cur left died 0 ga = (r, t, g1)"
    then show "store_frame g g1" using draw_event_store store_frame_trans by blast
  next
    fix ga event cur ac died r g1
    assume "store_frame g ga" "accept_event ridx event cur ac died ga = (r, g1)"
    then show "store_frame g g1" using accept_event_store store_frame_trans by blast
  qed
  then show ?thesis by simp
qed

subsection \<open>The opening of a game\<close>

text \<open>
  C7. From a fresh game, whatever the settings, the roster, the event pools and the random
  source, after any number of calls of \<^verbatim>\<open>AdvanceGame()\<close> the rounds simulated so far begin
  BLOODBATH, DAY, NIGHT, DAY: round 3 is never a feast.
\<close>

theorem first_four_stages:
  "advance_times rnd n (Game_new opts ts events rate) = Some (results, g) \<Longrightarrow>
   take 4 (map round_stage (rounds g)) = take (length (rounds g)) [BLOODBATH, DAY, NIGHT, DAY]"
  using advance_times_stage_inv[OF Game_new_stage_inv] by (simp add: stage_inv_def)

theorem first_four_stages_witness:
  "map round_stage (rounds (snd (the (advance_times (rnd_of []) 5 three_tribute_game)))) =
     [BLOODBATH, DAY, NIGHT, DAY] \<and>
   take 4 (map round_stage (rounds (snd (the (advance_times (rnd_of []) 5 three_tribute_game))))) =
     take (length (rounds (snd (the (advance_times (rnd_of []) 5 three_tribute_game)))))
       [BLOODBATH, DAY, NIGHT, DAY]"
proof -
  let ?run = "advance_times (rnd_of []) 5 three_tribute_game"
  have stages: "map round_stage (rounds (snd (the ?run))) = [BLOODBATH, DAY, NIGHT, DAY]"
    by code_simp
  have "?run \<noteq> None"
    by code_simp
  then have "?run = Some (fst (the ?run), snd (the ?run))"
    by auto
  from first_four_stages[OF this[unfolded three_tribute_game_def]] stages
  show ?thesis
    by (simp add: three_tribute_game_def)
qed

subsection \<open>Termination of a round\<close>

lemma RequirementsSatisfied_accepts:
  "RequirementsSatisfied rnd g event cur left died = (Inr True, g') \<Longrightarrow> players_involved event \<le> left"
  by (auto simp: RequirementsSatisfied_def split: if_splits)

lemma draw_event_result:
  "draw_event rnd evs cur left died tries g = (r, t, g') \<Longrightarrow>
   tries \<le> max 100 (length evs * 10) + 1 \<Longrightarrow>
   t \<le> max 100 (length evs * 10) + 2 \<and>
   (\<forall>e. r = Inr (Some e) \<longrightarrow> e \<in> set evs \<and> players_involved e \<le> left)"
proof (induction rnd evs cur left died tries g rule: draw_event.induct)
  case (1 rnd evs cur left died tries g)
  show ?case
  proof (cases "tries > max 100 (length evs * 10)")
    case True
    then have "draw_event rnd evs cur left died tries g = (Inr None, tries + 1, g)"
      by (subst draw_event.simps) (simp only: if_True)
    with "1.prems" show ?thesis by auto
  next
    case False
    obtain k n1 where ri: "randomInt rnd 0 (int (length evs)) (random_calls g) = (k, n1)"
      by (cases "randomInt rnd 0 (int (length evs)) (random_calls g)")
    let ?g1 = "g\<lparr>random_calls := n1\<rparr>"
    note eq = draw_event_unfold[OF False ri, of cur left died]
    from False have tr: "tries + 1 \<le> max 100 (length evs * 10) + 1" by linarith
    show ?thesis
    proof (cases "if k < 0 then None else elem_at evs (nat k)")
      case None
      with "1.prems" eq tr show ?thesis by auto
    next
      case (Some event)
      then have mem: "event \<in> set evs" by (auto split: if_splits dest: elem_at_in_set)
      obtain rr g2 where rs: "RequirementsSatisfied rnd ?g1 event cur left died = (rr, g2)"
        by (cases "RequirementsSatisfied rnd ?g1 event cur left died")
      show ?thesis
      proof (cases rr)
        case (Inl e)
        with "1.prems" eq Some rs tr show ?thesis by auto
      next
        case (Inr b)
        show ?thesis
        proof (cases b)
          case True
          with rs Inr have "RequirementsSatisfied rnd ?g1 event cur left died = (Inr True, g2)"
            by simp
          then have "players_involved event \<le> left"
            by (rule RequirementsSatisfied_accepts)
          with "1.prems" eq Some rs Inr True mem tr show ?thesis by auto
        next
          case b: False
          with "1.prems" eq Some rs Inr
          have "draw_event rnd evs cur left died (tries + 1) g2 = (r, t, g')" by simp
          moreover from b have "b = False" by simp
          ultimately show ?thesis
            using "1.IH"[OF False refl ri[symmetric] refl Some rs[symmetric] Inr] tr by blast
        qed
      qed
    qed
  qed
qed

lemma select_loop_terminates:
  assumes wf: "\<forall>e \<in> set evs. 1 \<le> players_involved e"
  shows "\<exists>res. select_loop rnd evs ridx left ac cur died g = Some res"
proof (induction left arbitrary: ac cur died g rule: less_induct)
  case (less left)
  show ?case
  proof (cases "left = 0")
    case True
    then show ?thesis by (subst select_loop.simps) simp
  next
    case False
    obtain r t g1 where dr: "draw_event rnd evs cur left died 0 g = (r, t, g1)"
      by (cases "draw_event rnd evs cur left died 0 g")
    show ?thesis
    proof (cases r)
      case (Inl e)
      with False dr show ?thesis by (subst select_loop.simps) simp
    next
      case (Inr choice)
      show ?thesis
      proof (cases choice)
        case None
        with False dr Inr show ?thesis by (subst select_loop.simps) simp
      next
        case (Some event)
        from draw_event_result[OF dr] Inr Some wf
        have "1 \<le> players_involved event" "players_involved event \<le> left" by auto
        with False have smaller: "left - players_involved event < left" by simp
        obtain r2 g2 where ae: "accept_event ridx event cur ac died g1 = (r2, g2)"
          by (cases "accept_event ridx event cur ac died g1")
        show ?thesis
        proof (cases r2)
          case (Inl e)
          with False dr Inr Some ae show ?thesis by (subst select_loop.simps) simp
        next
          case r2: (Inr counters)
          obtain ac1 died1 where c: "counters = (ac1, died1)" by (cases counters)
          from less.IH[OF smaller, of ac1 "cur + players_involved event" died1 g2]
          obtain res where "select_loop rnd evs ridx (left - players_involved event) ac1
              (cur + players_involved event) died1 g2 = Some res" by blast
          with False dr Inr Some ae r2 c show ?thesis
            by (subst select_loop.simps) simp
        qed
      qed
    qed
  qed
qed

lemma DoRoundImpl_terminates:
  assumes "\<forall>e \<in> set (stage_event_list g). 1 \<le> players_involved e"
  shows "\<exists>err g'. DoRoundImpl rnd g = Some (err, g')"
proof -
  obtain shuffled n1 where sh: "shuffle rnd (tributes_alive g) (random_calls g) = (shuffled, n1)"
    by (cases "shuffle rnd (tributes_alive g) (random_calls g)")
  define g3 where "g3 = g\<lparr>game_title := round_title g,
      rounds := rounds g @ [\<lparr> game_events = [], died_this_round = [],
                    round_index = length (rounds g), round_stage = stage g \<rparr>],
      tributes_alive := shuffled, random_calls := n1\<rparr>"
  have evs: "stage_event_list g3 = stage_event_list g"
    by (cases "stage g") (simp_all add: g3_def stage_event_list_def)
  from select_loop_terminates[of "stage_event_list g3" rnd "length (rounds g)"
      "length (tributes_alive g)" "int (length (tributes_alive g))" 0 0 g3] assms evs
  obtain res where "select_loop rnd (stage_event_list g3) (length (rounds g)) (length (tributes_alive g))
               (int (length (tributes_alive g))) 0 0 g3 = Some res" by auto
  with sh show ?thesis
    by (cases res) (auto simp: DoRoundImpl_def Let_def g3_def split: option.splits)
qed

text \<open>
  C9. Every event of a pool involves at least one player, as the \<^verbatim>\<open>Event\<close> constructor
  ensures (\<open>Event_new_players_involved\<close>). Then the simulation of a round returns,
  whatever the roster and the random source; each choice of an event leaves its loop with
  \<^verbatim>\<open>tries\<close> at most \<^verbatim>\<open>max(100, pool_size * 10) + 2\<close>; and an accepted event involves at
  most the tributes that are left and strictly decreases their number.
\<close>

theorem round_simulation_terminates:
  assumes "\<forall>e \<in> set (stage_event_list g). 1 \<le> players_involved e"
  shows "(\<exists>err g'. DoRoundImpl rnd g = Some (err, g')) \<and>
         (\<forall>cur left died g0 r tries g1.
            draw_event rnd (stage_event_list g) cur left died 0 g0 = (r, tries, g1) \<longrightarrow>
            tries \<le> max 100 (length (stage_event_list g) * 10) + 2 \<and>
            (\<forall>e. r = Inr (Some e) \<longrightarrow>
               players_involved e \<le> left \<and> left - players_involved e < left))"
proof (intro conjI allI impI)
  show "\<exists>err g'. DoRoundImpl rnd g = Some (err, g')"
    using assms by (rule DoRoundImpl_terminates)
next
  fix cur left died g0 r tries g1
  assume dr: "draw_event rnd (stage_event_list g) cur left died 0 g0 = (r, tries, g1)"
  from draw_event_result[OF dr] show "tries \<le> max 100 (length (stage_event_list g) * 10) + 2"
    by simp
  fix e assume "r = Inr (Some e)"
  with draw_event_result[OF dr] assms
  have "e \<in> set (stage_event_list g)" "players_involved e \<le> left" by auto
  with assms have "1 \<le> players_involved e" by blast
  with \<open>players_involved e \<le> left\<close>
  show "players_involved e \<le> left" "left - players_involved e < left" by auto
qed

theorem round_simulation_terminates_witness:
  "(\<exists>err g'. DoRoundImpl (rnd_of []) three_tribute_game = Some (err, g')) \<and>
   fst (snd (draw_event (rnd_of []) (stage_event_list three_tribute_game) 0 3 0 0 three_tribute_game))
     \<le> max 100 (length (stage_event_list three_tribute_game) * 10) + 2"
proof -
  have wf: "\<forall>e \<in> set (stage_event_list three_tribute_game). 1 \<le> players_involved e"
    by (simp add: three_tribute_game_def Game_new_def stage_event_list_def AddEvents_def
        quiet_nights_def builtin_event_def)
  note t = round_simulation_terminates[OF wf, of "rnd_of []"]
  from t have a: "\<exists>err g'. DoRoundImpl (rnd_of []) three_tribute_game = Some (err, g')"
    by blast
  obtain r tries g1 where
    dr: "draw_event (rnd_of []) (stage_event_list three_tribute_game) 0 3 0 0 three_tribute_game
           = (r, tries, g1)"
    by (cases "draw_event (rnd_of []) (stage_event_list three_tribute_game) 0 3 0 0 three_tribute_game")
  with t have "tries \<le> max 100 (length (stage_event_list three_tribute_game) * 10) + 2"
    by blast
  with dr a show ?thesis by simp
qed

section \<open>The state machine\<close>

subsection \<open>The accumulation buffer and the state after a round\<close>

lemma finish_round_buffer:
  "Suc ridx = length (rounds g) \<Longrightarrow>
   tributes_died (finish_round rnd ridx g) =
     tributes_died g @ died_this_round (last (rounds (finish_round rnd ridx g)))"
  by (cases "rounds g" rule: rev_cases)
     (auto simp: finish_round_def Let_def split: prod.splits)

lemma DoRoundImpl_buffer:
  assumes "DoRoundImpl rnd g = Some (None, g')"
  shows "tributes_died g' = tributes_died g @ died_this_round (last (rounds g'))"
proof -
  obtain shuffled n1 where sh: "shuffle rnd (tributes_alive g) (random_calls g) = (shuffled, n1)"
    by (cases "shuffle rnd (tributes_alive g) (random_calls g)")
  define g3 where "g3 = g\<lparr>game_title := round_title g,
      rounds := rounds g @ [\<lparr> game_events = [], died_this_round = [],
                    round_index = length (rounds g), round_stage = stage g \<rparr>],
      tributes_alive := shuffled, random_calls := n1\<rparr>"
  show ?thesis
  proof (cases "length (stage_event_list g3) = 0")
    case True
    with assms sh have "g' = g3"
      by (simp add: DoRoundImpl_def Let_def g3_def)
    then show ?thesis by (simp add: g3_def)
  next
    case False
    with assms sh obtain g4 where
      loop: "select_loop rnd (stage_event_list g3) (length (rounds g)) (length (tributes_alive g))
               (int (length (tributes_alive g))) 0 0 g3 = Some (None, g4)" and
      res: "g' = finish_round rnd (length (rounds g)) g4"
      by (auto simp: DoRoundImpl_def Let_def g3_def split: option.splits)
    from select_loop_frame[OF loop] have fr: "round_frame g3 g4" .
    then have "length (map round_stage (rounds g4)) = length (map round_stage (rounds g3))"
      by (simp add: round_frame_def)
    then have len: "Suc (length (rounds g)) = length (rounds g4)"
      by (simp add: g3_def)
    from fr have "tributes_died g4 = tributes_died g"
      by (simp add: round_frame_def g3_def)
    with finish_round_buffer[OF len, of rnd] res show ?thesis by simp
  qed
qed

lemma AdvanceGameStage_frame:
  "AdvanceGameStage rnd g = (st, g1) \<Longrightarrow>
   tributes_died g1 = tributes_died g \<and> state g1 = state g \<and> rounds g1 = rounds g"
  by (auto simp: AdvanceGameStage_def Let_def split: if_splits prod.splits)

lemma DoRound_effect:
  assumes "DoRound rnd g = Some (err, g')"
  shows "(err \<noteq> None \<longrightarrow> state g' = state g) \<and>
         (err = None \<longrightarrow>
            (state g' = state g \<or> state g' = END_RESULTS \<or> state g' = THE_FALLEN) \<and>
            tributes_died g' = tributes_died g @ died_this_round (last (rounds g')))"
proof -
  obtain st g1 where ags: "AdvanceGameStage rnd g = (st, g1)"
    by (cases "AdvanceGameStage rnd g")
  note fr = AdvanceGameStage_frame[OF ags]
  from assms ags obtain e3 g3 where
    impl: "DoRoundImpl rnd (g1\<lparr>stage := st\<rparr>) = Some (e3, g3)"
    by (auto simp: DoRound_def Let_def split: option.splits)
  from DoRoundImpl_effect[OF impl] fr have st3: "state g3 = state g" by simp
  show ?thesis
  proof (cases e3)
    case None
    with DoRoundImpl_buffer impl fr
    have buf: "tributes_died g3 = tributes_died g @ died_this_round (last (rounds g3))"
      by fastforce
    from assms ags impl None st3 buf show ?thesis
      by (auto simp: DoRound_def Let_def CheckGameShouldEnd_def split: if_splits)
  next
    case (Some e)
    with assms ags impl st3 show ?thesis
      by (auto simp: DoRound_def Let_def)
  qed
qed

subsection \<open>The deaths a snapshot reports\<close>

text \<open>
  C1, as the code has it. A call of \<^verbatim>\<open>AdvanceGame()\<close> that returns a snapshot reports every
  tribute with a death record exactly when the state after the call is END, that is when
  the call started in END_SUMMARY_STATS or END; after every other call, also one that
  ends in END_RESULTS, the snapshot reports the accumulation buffer. The buffer is reset
  by a call from NEW_ROUND, extended by the deaths of the round played by a call from
  NEW_ROUND or IN_ROUND, and left alone by every other call.
\<close>

theorem snapshot_tributes_died:
  assumes "AdvanceGame rnd g = Some (Inr snapshot, g')"
  shows "rs_tributes_died snapshot =
           (if state g' = END then tributes_with_death_record g' else tributes_died g') \<and>
         (state g' = END \<longleftrightarrow> state g = END_SUMMARY_STATS \<or> state g = END) \<and>
         (state g = NEW_ROUND \<longrightarrow> tributes_died g' = died_this_round (last (rounds g'))) \<and>
         (state g = IN_ROUND \<longrightarrow>
            tributes_died g' = tributes_died g @ died_this_round (last (rounds g'))) \<and>
         (state g \<noteq> NEW_ROUND \<and> state g \<noteq> IN_ROUND \<longrightarrow> tributes_died g' = tributes_died g)"
proof (cases "state g")
  case NEW_ROUND
  with assms obtain g1 where
    dr: "DoRound rnd (StartNewRound (g\<lparr>state := IN_ROUND\<rparr>)) = Some (None, g')" and
    snap: "snapshot = render (TickRenderState g) g'"
    by (auto simp: AdvanceGame_def Let_def split: option.splits)
  from DoRound_effect[OF dr] NEW_ROUND snap show ?thesis
    by (auto simp: StartNewRound_def render_def)
next
  case IN_ROUND
  with assms obtain g1 where
    dr: "DoRound rnd g = Some (None, g')" and
    snap: "snapshot = render (TickRenderState g) g'"
    by (auto simp: AdvanceGame_def Let_def split: option.splits)
  from DoRound_effect[OF dr] IN_ROUND snap show ?thesis
    by (auto simp: render_def)
qed (use assms in \<open>auto simp: AdvanceGame_def Let_def render_def\<close>)

theorem snapshot_tributes_died_witness:
  "AdvanceGame (rnd_of []) three_tribute_game =
     Some (Inr (projr (fst (the (AdvanceGame (rnd_of []) three_tribute_game)))),
           snd (the (AdvanceGame (rnd_of []) three_tribute_game))) \<and>
   state three_tribute_game = NEW_ROUND \<and>
   state (snd (the (AdvanceGame (rnd_of []) three_tribute_game))) = IN_ROUND \<and>
   rs_tributes_died (projr (fst (the (AdvanceGame (rnd_of []) three_tribute_game)))) = [2] \<and>
   rs_tributes_died (projr (fst (the (AdvanceGame (rnd_of []) three_tribute_game)))) =
     tributes_died (snd (the (AdvanceGame (rnd_of []) three_tribute_game))) \<and>
   tributes_died (snd (the (AdvanceGame (rnd_of []) three_tribute_game))) =
     died_this_round (last (rounds (snd (the (AdvanceGame (rnd_of []) three_tribute_game)))))"
proof -
  let ?r = "the (AdvanceGame (rnd_of []) three_tribute_game)"
  have call: "AdvanceGame (rnd_of []) three_tribute_game = Some (Inr (projr (fst ?r)), snd ?r)"
    by code_simp
  have before: "state three_tribute_game = NEW_ROUND"
    by code_simp
  have after: "state (snd ?r) = IN_ROUND"
    by code_simp
  have deaths: "rs_tributes_died (projr (fst ?r)) = [2]"
    by code_simp
  from snapshot_tributes_died[OF call] call before after deaths show ?thesis
    by simp
qed

text \<open>
  C1 as stated fails. In \<open>three_tribute_game\<close> tribute 2 dies in the bloodbath and is shown
  on the fallen screen after the first night; tribute 0 dies on the next day, which ends
  the game. The snapshot of that call, whose state afterwards is END_RESULTS, reports the
  buffer \<open>[0]\<close> and not the two tributes with a death record.
\<close>

theorem final_round_snapshot_reports_buffer:
  "map_option summary (next_call late_death_source 4 three_tribute_game) =
     Some (Some [0], END_RESULTS, [0], [0, 2])"
  by code_simp

subsection \<open>Errors and the state DEAD\<close>

text \<open>
  C2, as the code has it. From the state DEAD every call returns the internal error and
  leaves the machine in DEAD, so that all later calls return an error too. A call that
  returns an error started either in DEAD, or in NEW_ROUND or IN_ROUND with an error
  thrown by the simulation of the round; the latter leaves the machine in IN_ROUND.
\<close>

theorem dead_is_permanent:
  "(state g = DEAD \<longrightarrow> advance_times rnd n g = Some (replicate n (Inl InternalError), g)) \<and>
   (AdvanceGame rnd g = Some (Inl e, g') \<longrightarrow>
      (state g = DEAD \<and> state g' = DEAD \<and> e = InternalError) \<or>
      ((state g = NEW_ROUND \<or> state g = IN_ROUND) \<and> state g' = IN_ROUND))"
proof (intro conjI impI)
  assume dead: "state g = DEAD"
  then have step: "AdvanceGame rnd g = Some (Inl InternalError, g)"
    by (simp add: AdvanceGame_def)
  show "advance_times rnd n g = Some (replicate n (Inl InternalError), g)"
    by (induction n) (simp_all add: step)
next
  assume err: "AdvanceGame rnd g = Some (Inl e, g')"
  show "(state g = DEAD \<and> state g' = DEAD \<and> e = InternalError) \<or>
      ((state g = NEW_ROUND \<or> state g = IN_ROUND) \<and> state g' = IN_ROUND)"
  proof (cases "state g")
    case NEW_ROUND
    with err have "DoRound rnd (StartNewRound (g\<lparr>state := IN_ROUND\<rparr>)) = Some (Some e, g')"
      by (auto simp: AdvanceGame_def Let_def split: option.splits)
    from DoRound_effect[OF this] NEW_ROUND show ?thesis
      by (simp add: StartNewRound_def)
  next
    case IN_ROUND
    with err have "DoRound rnd g = Some (Some e, g')"
      by (auto simp: AdvanceGame_def Let_def split: option.splits)
    from DoRound_effect[OF this] IN_ROUND show ?thesis by simp
  qed (use err in \<open>auto simp: AdvanceGame_def Let_def\<close>)
qed

theorem dead_is_permanent_witness:
  "state (three_tribute_game\<lparr>state := DEAD\<rparr>) = DEAD \<and>
   advance_times (rnd_of []) 3 (three_tribute_game\<lparr>state := DEAD\<rparr>) =
     Some ([Inl InternalError, Inl InternalError, Inl InternalError],
           three_tribute_game\<lparr>state := DEAD\<rparr>) \<and>
   AdvanceGame (rnd_of []) faulty_bloodbath_game =
     Some (Inl (IndexOutOfBounds 1), snd (the (AdvanceGame (rnd_of []) faulty_bloodbath_game))) \<and>
   state faulty_bloodbath_game = NEW_ROUND \<and>
   state (snd (the (AdvanceGame (rnd_of []) faulty_bloodbath_game))) = IN_ROUND"
proof -
  let ?dead = "three_tribute_game\<lparr>state := DEAD\<rparr>"
  let ?g' = "snd (the (AdvanceGame (rnd_of []) faulty_bloodbath_game))"
  have dead: "state ?dead = DEAD"
    by simp
  have call: "AdvanceGame (rnd_of []) faulty_bloodbath_game = Some (Inl (IndexOutOfBounds 1), ?g')"
    by code_simp
  have before: "state faulty_bloodbath_game = NEW_ROUND"
    by code_simp
  from dead_is_permanent[where g = ?dead and rnd = "rnd_of []" and n = 3] dead
  have run: "advance_times (rnd_of []) 3 ?dead = Some (replicate 3 (Inl InternalError), ?dead)"
    by blast
  from dead_is_permanent[where g = faulty_bloodbath_game and rnd = "rnd_of []"
      and e = "IndexOutOfBounds 1" and g' = ?g'] call before
  have after: "state ?g' = IN_ROUND"
    by auto
  from dead run call before after show ?thesis
    by (simp add: numeral_3_eq_3)
qed

text \<open>
  C2 as stated fails. The bloodbath event of \<open>faulty_bloodbath_game\<close> cannot be composed:
  the first call returns the bounds error and leaves the machine in IN_ROUND, and the
  second call plays a day and returns a snapshot.
\<close>

theorem error_then_snapshot:
  "map_option (map_prod (map outcome) state) (advance_times (rnd_of []) 1 faulty_bloodbath_game) =
     Some ([Some (IndexOutOfBounds 1)], IN_ROUND) \<and>
   map_option (map_prod (map outcome) state) (advance_times (rnd_of []) 2 faulty_bloodbath_game) =
     Some ([Some (IndexOutOfBounds 1), None], IN_ROUND)"
  by code_simp

subsection \<open>The fatality quota\<close>




subsection \<open>Death records\<close>

text \<open>
  Along calls of \<^verbatim>\<open>AdvanceGame()\<close> that return snapshots the roster invariant is kept: a
  round touches only tributes of the alive roster, and its last step removes those it has
  marked dead. So a death record, once set, stays as it is, and its tribute stays out of
  the roster.
\<close>

lemma finish_round_roster:
  "tributes (finish_round rnd ridx g) = tributes g"
  "tributes_alive (finish_round rnd ridx g) =
     filter (\<lambda>t. died_in_round (tributes g ! t) = None) (tributes_alive g)"
  by (simp_all add: finish_round_def Let_def split: prod.splits)

lemma DoRoundImpl_roster:
  assumes inv: "roster_inv g" and step: "DoRoundImpl rnd g = Some (None, g')"
  shows "roster_inv g' \<and> length (tributes g') = length (tributes g) \<and>
         set (tributes_alive g') \<subseteq> set (tributes_alive g) \<and>
         (\<forall>t. t \<notin> set (tributes_alive g) \<longrightarrow> tributes g' ! t = tributes g ! t)"
proof -
  obtain shuffled n1 where sh: "shuffle rnd (tributes_alive g) (random_calls g) = (shuffled, n1)"
    by (cases "shuffle rnd (tributes_alive g) (random_calls g)")
  from shuffle_mset[OF sh] have perm: "mset shuffled = mset (tributes_alive g)" .
  then have set_eq: "set shuffled = set (tributes_alive g)" by (rule mset_eq_setD)
  from perm inv have dist: "distinct shuffled"
    by (auto simp: roster_inv_def dest: mset_eq_imp_distinct_iff)
  define g3 where "g3 = g\<lparr>game_title := round_title g,
      rounds := rounds g @ [\<lparr> game_events = [], died_this_round = [],
                    round_index = length (rounds g), round_stage = stage g \<rparr>],
      tributes_alive := shuffled, random_calls := n1\<rparr>"
  have g3: "tributes g3 = tributes g" "tributes_alive g3 = shuffled"
    by (simp_all add: g3_def)
  show ?thesis
  proof (cases "length (stage_event_list g3) = 0")
    case True
    with step sh have "g' = g3"
      by (simp add: DoRoundImpl_def Let_def g3_def)
    with g3 inv set_eq dist show ?thesis
      by (simp add: roster_inv_def)
  next
    case False
    with step sh obtain g4 where
      loop: "select_loop rnd (stage_event_list g3) (length (rounds g)) (length (tributes_alive g))
               (int (length (tributes_alive g))) 0 0 g3 = Some (None, g4)" and
      res: "g' = finish_round rnd (length (rounds g)) g4"
      by (auto simp: DoRoundImpl_def Let_def g3_def split: option.splits)
    from select_loop_store[OF loop] g3 set_eq
    have g4: "tributes_alive g4 = shuffled" "length (tributes g4) = length (tributes g)"
      "\<forall>t. t \<notin> set (tributes_alive g) \<longrightarrow> tributes g4 ! t = tributes g ! t"
      by (simp_all add: store_frame_def)
    from res g4 have alive': "tributes_alive g' = filter (\<lambda>t. died_in_round (tributes g4 ! t) = None) shuffled"
      and store': "tributes g' = tributes g4"
      by (simp_all add: finish_round_roster)
    from alive' store' dist set_eq inv g4(2) have "roster_inv g'"
      by (auto simp: roster_inv_def)
    with alive' store' g4 set_eq show ?thesis by auto
  qed
qed

lemma AdvanceGameStage_roster:
  "AdvanceGameStage rnd g = (st, g1) \<Longrightarrow>
   tributes g1 = tributes g \<and> tributes_alive g1 = tributes_alive g"
  by (auto simp: AdvanceGameStage_def Let_def split: if_splits prod.splits)

lemma DoRound_roster:
  assumes inv: "roster_inv g" and step: "DoRound rnd g = Some (None, g')"
  shows "roster_inv g' \<and> length (tributes g') = length (tributes g) \<and>
         set (tributes_alive g') \<subseteq> set (tributes_alive g) \<and>
         (\<forall>t. t \<notin> set (tributes_alive g) \<longrightarrow> tributes g' ! t = tributes g ! t)"
proof -
  obtain st g1 where ags: "AdvanceGameStage rnd g = (st, g1)"
    by (cases "AdvanceGameStage rnd g")
  note fr = AdvanceGameStage_roster[OF ags]
  let ?g2 = "g1\<lparr>stage := st\<rparr>"
  from step ags obtain g3 where
    impl: "DoRoundImpl rnd ?g2 = Some (None, g3)" and
    g': "tributes g' = tributes g3 \<and> tributes_alive g' = tributes_alive g3"
    by (auto simp: DoRound_def Let_def CheckGameShouldEnd_def split: option.splits if_splits)
  from inv fr have "roster_inv ?g2" by (simp add: roster_inv_def)
  from DoRoundImpl_roster[OF this impl] fr g' show ?thesis
    by (auto simp: roster_inv_def)
qed

lemma AdvanceGame_roster:
  assumes inv: "roster_inv g" and step: "AdvanceGame rnd g = Some (Inr snapshot, g')"
  shows "roster_inv g' \<and> length (tributes g') = length (tributes g) \<and>
         set (tributes_alive g') \<subseteq> set (tributes_alive g) \<and>
         (\<forall>t. t \<notin> set (tributes_alive g) \<longrightarrow> tributes g' ! t = tributes g ! t)"
proof (cases "state g")
  case NEW_ROUND
  let ?g0 = "StartNewRound (g\<lparr>state := IN_ROUND\<rparr>)"
  from NEW_ROUND step have dr: "DoRound rnd ?g0 = Some (None, g')"
    by (auto simp: AdvanceGame_def Let_def split: option.splits)
  from inv have "roster_inv ?g0" by (simp add: roster_inv_def StartNewRound_def)
  from DoRound_roster[OF this dr] show ?thesis by (simp add: StartNewRound_def)
next
  case IN_ROUND
  with step have dr: "DoRound rnd g = Some (None, g')"
    by (auto simp: AdvanceGame_def Let_def split: option.splits)
  from DoRound_roster[OF inv dr] show ?thesis .
qed (use inv step in \<open>auto simp: AdvanceGame_def Let_def roster_inv_def\<close>)

lemma death_records_without_errors:
  assumes "roster_inv g" and "advance_times rnd n g = Some (results, g')"
    and "\<forall>res \<in> set results. outcome res = None"
  shows "roster_inv g' \<and> length (tributes g') = length (tributes g) \<and>
         (\<forall>t < length (tributes g). died_in_round (tributes g ! t) \<noteq> None \<longrightarrow>
            tributes g' ! t = tributes g ! t \<and> t \<notin> set (tributes_alive g'))"
  using assms
proof (induction n arbitrary: g results)
  case 0
  then show ?case by (auto simp: roster_inv_def)
next
  case (Suc n)
  from Suc.prems(2) obtain res g1 rest where
    step: "AdvanceGame rnd g = Some (res, g1)" and
    run: "advance_times rnd n g1 = Some (rest, g')" and
    results: "results = res # rest"
    by (auto split: option.splits prod.splits)
  from Suc.prems(3) results obtain snapshot where "res = Inr snapshot"
    by (cases res) (auto simp: outcome_def)
  with step have step': "AdvanceGame rnd g = Some (Inr snapshot, g1)" by simp
  note one = AdvanceGame_roster[OF Suc.prems(1) step']
  from Suc.prems(3) results have "\<forall>res \<in> set rest. outcome res = None" by simp
  with Suc.IH[of g1 rest] one run have
    rec: "roster_inv g' \<and> length (tributes g') = length (tributes g1) \<and>
         (\<forall>t < length (tributes g1). died_in_round (tributes g1 ! t) \<noteq> None \<longrightarrow>
            tributes g' ! t = tributes g1 ! t \<and> t \<notin> set (tributes_alive g'))"
    by blast
  have "tributes g' ! t = tributes g ! t \<and> t \<notin> set (tributes_alive g')"
    if t: "t < length (tributes g)" and dead: "died_in_round (tributes g ! t) \<noteq> None" for t
  proof -
    from Suc.prems(1) dead have "t \<notin> set (tributes_alive g)"
      by (auto simp: roster_inv_def)
    with one have "tributes g1 ! t = tributes g ! t" by blast
    with rec one t dead show ?thesis by auto
  qed
  with rec one show ?case by auto
qed

lemma Game_new_roster_inv:
  "\<forall>t \<in> set ts. died_in_round t = None \<Longrightarrow> roster_inv (Game_new opts ts events rate)"
  by (auto simp: roster_inv_def Game_new_def)

text \<open>
  C8. The claim: a death record, once set, is never reassigned, and a tribute with a death
  record is not in the alive roster, in every state at the boundary of \<^verbatim>\<open>AdvanceGame()\<close>.
  This holds as long as no call returns an error (\<open>death_records_without_errors\<close>), and
  the code breaks it on the error path. The constructor accepts the event of
  \<open>fatal_slip_game\<close> (the slip of C3), and its message cannot be composed. The round
  marks the first tribute of the shuffled roster dead and then throws, before the dead
  are removed from the roster: after the first call tribute 1 has a death record (round 0)
  and still stands in the alive roster, and the third call gives it another (round 2).
\<close>

theorem death_record_after_failed_round:
  "Event_new (-1) ''%0 die%e1'' [0] [] ''BUILTIN'' = Inr (builtin_event ''%0 die%e1'' 1 [0] []) \<and>
   map_option (map_prod (map outcome) roster_view) (advance_times (rnd_of []) 1 fatal_slip_game) =
     Some ([Some (IndexOutOfBounds 1)], [1, 0], [None, Some 0]) \<and>
   map_option (map_prod (map outcome) roster_view) (advance_times (rnd_of []) 3 fatal_slip_game) =
     Some ([Some (IndexOutOfBounds 1), Some (IndexOutOfBounds 1), Some (IndexOutOfBounds 1)],
           [1, 0], [Some 1, Some 2])"
  by code_simp

end
